theory Spec2Isabelle
  imports Complex_Main "HOL-Library.Sublist" "HOL-Library.Word" "HOL-Library.Char_ord"
    "HOL-Library.List_Lexorder" "HOL-Library.Multiset"
begin

section \<open>Names, paths and the regular expressions of the renderer\<close>

text \<open>
  A texture name (a "stem") is a Python \<open>str\<close>, here a \<open>string\<close>. A \<open>pathlib.Path\<close> is
  the list of its components below the file-system root. A \<open>Path\<close> object is always
  truthy in Python (the class defines neither \<open>__bool__\<close> nor \<open>__len__\<close>), so for the
  values that \<open>find_faces\<close> handles, "falsy" means exactly \<open>None\<close>.
\<close>

type_synonym path = "string list"

datatype exn =
    StopIteration
  | ValueError
  | FileExistsError
  | FileNotFoundError
  | NotADirectoryError
  | IsADirectoryError
  | UnidentifiedImageError
  | AttributeError

definition TOP_KEYS :: "string list" where
  "TOP_KEYS = [''top'', ''up'', ''upper'']"

definition BOTTOM_KEYS :: "string list" where
  "BOTTOM_KEYS = [''bottom'', ''down'', ''lower'']"

definition SIDE_KEYS :: "string list" where
  "SIDE_KEYS = [''side'', ''sides'']"

datatype direction = North | South | East | West

fun FACE_KEYS :: "direction \<Rightarrow> string list" where
  "FACE_KEYS North = [''north'']"
| "FACE_KEYS South = [''south'']"
| "FACE_KEYS East = [''east'']"
| "FACE_KEYS West = [''west'']"

subsection \<open>\<open>re.search(rf"(^|[_\-]){k}([_\-]|$)", stem)\<close>\<close>

text \<open>The character class \<open>[_\-]\<close>.\<close>

definition is_delim :: "char \<Rightarrow> bool" where
  "is_delim c \<longleftrightarrow> c = CHR ''_'' \<or> c = CHR ''-''"

text \<open>
  Python's \<open>$\<close> without \<open>re.MULTILINE\<close>: it matches at the end of the string and also
  just before a newline that is the last character of the string. The argument is the
  text that remains to the right of the position.
\<close>

definition at_dollar :: "string \<Rightarrow> bool" where
  "at_dollar rest \<longleftrightarrow> rest = [] \<or> rest = [CHR 0x0A]"

text \<open>Matching a literal at the current position; the result is the text after it.\<close>

fun match_literal :: "string \<Rightarrow> string \<Rightarrow> string option" where
  "match_literal [] s = Some s"
| "match_literal (k # ks) [] = None"
| "match_literal (k # ks) (c # cs) = (if k = c then match_literal ks cs else None)"

text \<open>\<open>{k}([_\-]|$)\<close> at the current position, for a key of literal characters.\<close>

definition key_here :: "string \<Rightarrow> string \<Rightarrow> bool" where
  "key_here k s =
     (case match_literal k s of
        None \<Rightarrow> False
      | Some rest \<Rightarrow> (case rest of c # _ \<Rightarrow> is_delim c \<or> at_dollar rest | [] \<Rightarrow> True))"

text \<open>
  The scan of \<open>re.search\<close> from left to right. The flag says whether the group
  \<open>(^|[_\-])\<close> can end at the current position: at the start of the string, or right
  after an underscore or a hyphen.
\<close>

fun search_from :: "string \<Rightarrow> bool \<Rightarrow> string \<Rightarrow> bool" where
  "search_from k b [] = (b \<and> key_here k [])"
| "search_from k b (c # cs) = ((b \<and> key_here k (c # cs)) \<or> search_from k (is_delim c) cs)"

definition re_search_key :: "string \<Rightarrow> string \<Rightarrow> bool" where
  "re_search_key k stem = search_from k True stem"

subsection \<open>\<open>pick_by_keys\<close> and \<open>find_faces\<close>\<close>

text \<open>
  A \<open>dict\<close> keeps its insertion order, and \<open>pick_by_keys\<close> depends on it: the texture
  map is the list of its items in that order.
\<close>

type_synonym texmap = "(string \<times> path) list"

fun pick_by_keys :: "texmap \<Rightarrow> string list \<Rightarrow> path option" where
  "pick_by_keys [] keys = None"
| "pick_by_keys ((stem, p) # items) keys =
     (if list_ex (\<lambda>k. re_search_key k stem) keys then Some p else pick_by_keys items keys)"

text \<open>
  The dictionary \<open>faces\<close> has the four keys \<open>"top"\<close>, \<open>"bottom"\<close>, \<open>"left"\<close>, \<open>"right"\<close>;
  each value is a path or \<open>None\<close>.
\<close>

record faces =
  top_face :: "path option"
  bottom_face :: "path option"
  left_face :: "path option"
  right_face :: "path option"

text \<open>\<open>faces.values()\<close>, in the order of the keys.\<close>

definition faces_values :: "faces \<Rightarrow> path option list" where
  "faces_values f = [top_face f, bottom_face f, left_face f, right_face f]"

text \<open>\<open>x or y\<close> on values that are \<open>None\<close> or a (truthy) path.\<close>

definition py_or :: "path option \<Rightarrow> path option \<Rightarrow> path option" where
  "py_or x y = (case x of None \<Rightarrow> y | Some _ \<Rightarrow> x)"

text \<open>\<open>any(faces.values())\<close>.\<close>

definition any_face :: "faces \<Rightarrow> bool" where
  "any_face f = list_ex (\<lambda>v. v \<noteq> None) (faces_values f)"

text \<open>
  The last lines of \<open>find_faces\<close>: \<open>base_tex\<close> is computed once, and every slot that is
  still \<open>None\<close> takes it.
\<close>

definition fill_faces :: "faces \<Rightarrow> faces" where
  "fill_faces f =
     (let base_tex = py_or (py_or (py_or (top_face f) (left_face f)) (right_face f)) (bottom_face f);
          fill = (\<lambda>v. if v = None then base_tex else v)
      in \<lparr>top_face = fill (top_face f), bottom_face = fill (bottom_face f),
          left_face = fill (left_face f), right_face = fill (right_face f)\<rparr>)"

text \<open>
  \<open>find_faces\<close> up to its \<open>if side_tex: ... else: ...\<close>: the slots as the keyword
  heuristics bind them.
\<close>

definition keyword_faces :: "texmap \<Rightarrow> faces" where
  "keyword_faces textures =
     (let top_tex = pick_by_keys textures TOP_KEYS;
          bottom_tex = pick_by_keys textures BOTTOM_KEYS;
          side_tex = pick_by_keys textures SIDE_KEYS;
          north = pick_by_keys textures (FACE_KEYS North);
          south = pick_by_keys textures (FACE_KEYS South);
          east = pick_by_keys textures (FACE_KEYS East);
          west = pick_by_keys textures (FACE_KEYS West)
      in if side_tex \<noteq> None
         then \<lparr>top_face = top_tex, bottom_face = bottom_tex,
               left_face = side_tex, right_face = side_tex\<rparr>
         else \<lparr>top_face = top_tex, bottom_face = bottom_tex,
               left_face = py_or (py_or (py_or west south) east) north,
               right_face = py_or (py_or (py_or east north) west) south\<rparr>)"

text \<open>
  The rest of \<open>find_faces\<close>. \<open>next(iter(textures.values()))\<close> raises \<open>StopIteration\<close> on an
  empty dictionary.
\<close>

definition find_faces :: "texmap \<Rightarrow> exn + faces" where
  "find_faces textures =
     (let f = keyword_faces textures
      in if \<not> any_face f
         then (case textures of
                 [] \<Rightarrow> Inl StopIteration
               | (_, any_tex) # _ \<Rightarrow>
                   Inr (fill_faces \<lparr>top_face = Some any_tex, bottom_face = Some any_tex,
                                    left_face = Some any_tex, right_face = Some any_tex\<rparr>))
         else Inr (fill_faces f))"

subsection \<open>The grouping key: \<open>re.sub(r"(_(top|bottom|side|north|south|east|west))$", "", stem)\<close>\<close>

definition SUFFIX_TOKENS :: "string list" where
  "SUFFIX_TOKENS = [''top'', ''bottom'', ''side'', ''north'', ''south'', ''east'', ''west'']"

text \<open>
  The alternation followed by \<open>$\<close>, tried at the current position in the order the
  pattern lists the tokens. The result is the text after the match.
\<close>

fun match_alt :: "string list \<Rightarrow> string \<Rightarrow> string option" where
  "match_alt [] s = None"
| "match_alt (t # ts) s =
     (case match_literal t s of
        Some rest \<Rightarrow> if at_dollar rest then Some rest else match_alt ts s
      | None \<Rightarrow> match_alt ts s)"

lemma match_literal_length: "match_literal k s = Some rest \<Longrightarrow> length rest \<le> length s"
  by (induction k s rule: match_literal.induct) (auto split: if_splits)

lemma match_alt_length: "match_alt ts s = Some rest \<Longrightarrow> length rest \<le> length s"
  by (induction ts) (auto split: option.splits if_splits dest: match_literal_length)

text \<open>
  \<open>re.sub\<close> scans from left to right, replaces each match by the empty string and
  goes on after it; a character that starts no match is copied.
\<close>

function re_sub_suffix :: "string \<Rightarrow> string" where
  "re_sub_suffix [] = []"
| "re_sub_suffix (c # cs) =
     (if c = CHR ''_''
      then (case match_alt SUFFIX_TOKENS cs of
              Some rest \<Rightarrow> re_sub_suffix rest
            | None \<Rightarrow> c # re_sub_suffix cs)
      else c # re_sub_suffix cs)"
  by pat_completeness auto
termination
  by (relation "measure length") (auto dest: match_alt_length)

section \<open>Images and the isometric compositor\<close>

text \<open>
  An RGBA image: its size and its pixels, read at a column \<open>x\<close> and a row \<open>y\<close>. Only the
  pixels inside the size belong to the image.
\<close>

datatype pixel = RGBA (red: "8 word") (green: "8 word") (blue: "8 word") (alpha: "8 word")

datatype image = Image (width: nat) (height: nat) (getpixel: "nat \<Rightarrow> nat \<Rightarrow> pixel")

definition transparent :: pixel where
  "transparent = RGBA 0 0 0 0"

text \<open>A pixel that is not fully transparent.\<close>

definition visible :: "image \<Rightarrow> nat \<Rightarrow> nat \<Rightarrow> bool" where
  "visible img x y \<longleftrightarrow> alpha (getpixel img x y) \<noteq> 0"

definition has_content :: "image \<Rightarrow> bool" where
  "has_content img \<longleftrightarrow> (\<exists>x < width img. \<exists>y < height img. visible img x y)"

text \<open>\<open>Image.new("RGBA", (w, h), (0,0,0,0))\<close>.\<close>

definition new_rgba :: "nat \<Rightarrow> nat \<Rightarrow> image" where
  "new_rgba w h = Image w h (\<lambda>x y. transparent)"

text \<open>
  \<open>Image.getbbox()\<close> on an RGBA image: the bounding box \<open>(left, upper, right, lower)\<close> of
  the pixels whose alpha is not zero, \<open>right\<close> and \<open>lower\<close> exclusive, or \<open>None\<close> when there
  is no such pixel.
\<close>

definition content_columns :: "image \<Rightarrow> nat list" where
  "content_columns img =
     filter (\<lambda>x. list_ex (\<lambda>y. visible img x y) [0..<height img]) [0..<width img]"

definition content_rows :: "image \<Rightarrow> nat list" where
  "content_rows img =
     filter (\<lambda>y. list_ex (\<lambda>x. visible img x y) [0..<width img]) [0..<height img]"

definition getbbox :: "image \<Rightarrow> (nat \<times> nat \<times> nat \<times> nat) option" where
  "getbbox img =
     (case (content_columns img, content_rows img) of
        (c # cs, r # rs) \<Rightarrow> Some (c, r, last (c # cs) + 1, last (r # rs) + 1)
      | _ \<Rightarrow> None)"

text \<open>
  \<open>Image.crop((left, upper, right, lower))\<close>: the region as a new image; a box whose
  right is left of its left, or whose lower is above its upper, raises \<open>ValueError\<close>;
  what lies outside the source is transparent.
\<close>

definition crop :: "image \<Rightarrow> nat \<times> nat \<times> nat \<times> nat \<Rightarrow> exn + image" where
  "crop img box =
     (case box of (l, u, r, b) \<Rightarrow>
        if r < l \<or> b < u then Inl ValueError
        else Inr (Image (r - l) (b - u)
                    (\<lambda>x y. if l + x < width img \<and> u + y < height img
                           then getpixel img (l + x) (u + y) else transparent)))"

text \<open>
  The resampling and blending operations of Pillow that \<open>make_iso_cube\<close> calls. They
  compute in floating point inside the library, so they are parameters of the model:
  each takes what the call passes and returns an image or raises.
\<close>

record pil =
  img_resize :: "image \<Rightarrow> int \<times> int \<Rightarrow> exn + image"
  img_rotate :: "image \<Rightarrow> int \<Rightarrow> exn + image"
  img_transform :: "image \<Rightarrow> nat \<times> nat \<Rightarrow> rat list \<Rightarrow> exn + image"
  brightness_enhance :: "image \<Rightarrow> rat \<Rightarrow> exn + image"
  img_paste :: "image \<Rightarrow> image \<Rightarrow> int \<times> int \<Rightarrow> exn + image"
  img_alpha_composite :: "image \<Rightarrow> image \<Rightarrow> exn + image"

text \<open>Sequencing of calls that may raise: the first exception ends the computation.\<close>

definition and_then :: "exn + 'a \<Rightarrow> ('a \<Rightarrow> exn + 'b) \<Rightarrow> exn + 'b" where
  "and_then m f = (case m of Inl e \<Rightarrow> Inl e | Inr x \<Rightarrow> f x)"

definition nearest_resize :: "pil \<Rightarrow> image \<Rightarrow> int \<Rightarrow> int \<Rightarrow> exn + image" where
  "nearest_resize P img w h = img_resize P img (w, h)"

definition brighten :: "pil \<Rightarrow> image \<Rightarrow> rat \<Rightarrow> exn + image" where
  "brighten P img factor = (if factor \<noteq> 1 then brightness_enhance P img factor else Inr img)"

definition alpha_composite :: "pil \<Rightarrow> image \<Rightarrow> image \<Rightarrow> int \<times> int \<Rightarrow> exn + image" where
  "alpha_composite P dest src offset =
     and_then (img_paste P (new_rgba (width dest) (height dest)) src offset)
       (\<lambda>tmp. img_alpha_composite P dest tmp)"

text \<open>
  \<open>make_iso_cube\<close> up to the third \<open>alpha_composite\<close>: the canvas before the crop (\<open>edge\<close> is the parameter \<open>size\<close>). The
  sizes of images are non-negative integers, on which \<open>int(h * 0.5)\<close> is \<open>h div 2\<close> and
  \<open>int(w + abs(shear) * h)\<close> is \<open>w + h div 2\<close>.
\<close>

definition iso_canvas :: "pil \<Rightarrow> image \<Rightarrow> image \<Rightarrow> image \<Rightarrow> int \<Rightarrow> exn + image" where
  "iso_canvas P top_img left_img right_img edge =
     and_then (nearest_resize P top_img edge edge) (\<lambda>top.
     and_then (nearest_resize P left_img edge edge) (\<lambda>left.
     and_then (nearest_resize P right_img edge edge) (\<lambda>right.
     and_then (img_rotate P top 45) (\<lambda>top_rot.
     and_then (nearest_resize P top_rot (int (width top_rot))
                 (max 1 (int (height top_rot div 2)))) (\<lambda>top_iso.
     and_then (img_transform P left (width left + height left div 2, height left div 2)
                 [1, - 1 / 2, 0, 0, 1 / 2, 0]) (\<lambda>left_sheared.
     and_then (brighten P left_sheared (92 / 100)) (\<lambda>left_iso.
     and_then (img_transform P right (width right + height right div 2, height right div 2)
                 [1, 1 / 2, 0, 0, 1 / 2, 0]) (\<lambda>right_sheared.
     and_then (brighten P right_sheared (82 / 100)) (\<lambda>right_iso.
       let canvas_w = width top_iso + width left_iso + width right_iso;
           canvas_h = height top_iso + max (height left_iso) (height right_iso);
           canvas = new_rgba canvas_w canvas_h;
           top_x = (int canvas_w - int (width top_iso)) div 2;
           top_y = 0;
           left_x = top_x - int (width left_iso) div 2;
           left_y = int (height top_iso) - 1;
           right_x = top_x + int (width top_iso) - int (width right_iso) div 2;
           right_y = int (height top_iso) - 1
       in and_then (alpha_composite P canvas left_iso (left_x, left_y)) (\<lambda>canvas1.
          and_then (alpha_composite P canvas1 right_iso (right_x, right_y)) (\<lambda>canvas2.
          alpha_composite P canvas2 top_iso (top_x, top_y))))))))))))"

text \<open>The last lines of \<open>make_iso_cube\<close>: the crop to the bounding box.\<close>

definition make_iso_cube :: "pil \<Rightarrow> image \<Rightarrow> image \<Rightarrow> image \<Rightarrow> int \<Rightarrow> exn + image" where
  "make_iso_cube P top_img left_img right_img edge =
     and_then (iso_canvas P top_img left_img right_img edge) (\<lambda>canvas.
       case getbbox canvas of
         Some bbox \<Rightarrow> crop canvas bbox
       | None \<Rightarrow> Inr canvas)"

section \<open>The file system and the job runner\<close>

subsection \<open>Files and directories\<close>

text \<open>
  A file holds a PNG that decodes to an image, or bytes that do not decode. The file
  system is the list of its entries below the root, in the order in which the operating
  system enumerates them (\<open>iterdir\<close> and \<open>rglob\<close> promise no order); the root \<open>[]\<close> is
  always a directory. The list describes a file system when its paths are distinct and
  the parent of every entry is a directory (\<open>wf_fs\<close>). Symbolic links and permissions are
  not modelled.
\<close>

datatype content = Png image | Undecodable

datatype node = Dir | File content

type_synonym fs = "(path \<times> node) list"

definition lookup :: "fs \<Rightarrow> path \<Rightarrow> node option" where
  "lookup fs p = (if p = [] then Some Dir else map_of fs p)"

definition path_exists :: "fs \<Rightarrow> path \<Rightarrow> bool" where
  "path_exists fs p = (case lookup fs p of None \<Rightarrow> False | Some _ \<Rightarrow> True)"

definition is_dir :: "fs \<Rightarrow> path \<Rightarrow> bool" where
  "is_dir fs p = (case lookup fs p of Some Dir \<Rightarrow> True | _ \<Rightarrow> False)"

definition wf_fs :: "fs \<Rightarrow> bool" where
  "wf_fs fs \<longleftrightarrow> distinct (map fst fs) \<and> [] \<notin> fst ` set fs \<and>
     (\<forall>p \<in> fst ` set fs. is_dir fs (butlast p))"

text \<open>\<open>Path.name\<close> and \<open>Path.parent\<close> (\<open>butlast\<close>); the root has the empty name.\<close>

definition path_name :: "path \<Rightarrow> string" where
  "path_name p = (if p = [] then [] else last p)"

text \<open>\<open>p / s\<close> for a single component \<open>s\<close>; joining the empty string changes nothing.\<close>

definition join :: "path \<Rightarrow> string \<Rightarrow> path" where
  "join p s = (if s = [] then p else p @ [s])"

text \<open>
  \<open>os.mkdir\<close>: the first ancestor that is missing or is a file decides the error;
  otherwise the path must not exist.
\<close>

definition os_mkdir :: "fs \<Rightarrow> path \<Rightarrow> exn + fs" where
  "os_mkdir fs p =
     (case find (\<lambda>q. \<not> is_dir fs q) (butlast (prefixes p)) of
        Some q \<Rightarrow> if path_exists fs q then Inl NotADirectoryError else Inl FileNotFoundError
      | None \<Rightarrow> if path_exists fs p then Inl FileExistsError else Inr (fs @ [(p, Dir)]))"

text \<open>\<open>Path.mkdir(parents=False, exist_ok=True)\<close>, the inner call of the next function.\<close>

definition mkdir_exist_ok :: "fs \<Rightarrow> path \<Rightarrow> exn + fs" where
  "mkdir_exist_ok fs p =
     (case os_mkdir fs p of
        Inr fs' \<Rightarrow> Inr fs'
      | Inl e \<Rightarrow> if e = FileNotFoundError then Inl e
                 else if is_dir fs p then Inr fs else Inl e)"

text \<open>
  \<open>Path.mkdir(parents=True, exist_ok=True)\<close>: on \<open>FileNotFoundError\<close> the parent is made
  first (unless the path is its own parent); any other \<open>OSError\<close> is swallowed when the
  path is a directory.
\<close>

function mkdir_parents :: "fs \<Rightarrow> path \<Rightarrow> exn + fs" where
  "mkdir_parents fs p =
     (case os_mkdir fs p of
        Inr fs' \<Rightarrow> Inr fs'
      | Inl e \<Rightarrow>
          if e = FileNotFoundError
          then (if butlast p = p then Inl e
                else (case mkdir_parents fs (butlast p) of
                        Inl e' \<Rightarrow> Inl e'
                      | Inr fs' \<Rightarrow> mkdir_exist_ok fs' p))
          else if is_dir fs p then Inr fs else Inl e)"
  by pat_completeness auto
termination
  by (relation "measure (\<lambda>(fs, p). length p)") (auto simp: butlast_conv_take intro: Suc_pred)

declare mkdir_parents.simps [simp del]

text \<open>\<open>Path.iterdir()\<close>: the children of a directory, in the order of the enumeration.\<close>

definition iterdir :: "fs \<Rightarrow> path \<Rightarrow> exn + path list" where
  "iterdir fs d =
     (case lookup fs d of
        None \<Rightarrow> Inl FileNotFoundError
      | Some (File _) \<Rightarrow> Inl NotADirectoryError
      | Some Dir \<Rightarrow> Inr (filter (\<lambda>p. p \<noteq> [] \<and> butlast p = d) (map fst fs)))"

text \<open>
  \<open>moddir.rglob("*.png")\<close>: every entry below the directory whose name ends in \<open>.png\<close>,
  files and directories alike, in the order of the enumeration.
\<close>

definition rglob_png :: "fs \<Rightarrow> path \<Rightarrow> path list" where
  "rglob_png fs d = filter (\<lambda>p. strict_prefix d p \<and> suffix ''.png'' (path_name p)) (map fst fs)"

subsection \<open>\<open>collect_textures_in_moddir\<close>\<close>

text \<open>\<open>str.rfind\<close> for one character: the last index, or \<open>-1\<close>.\<close>

primrec rfind_from :: "char \<Rightarrow> string \<Rightarrow> int \<Rightarrow> int \<Rightarrow> int" where
  "rfind_from c [] pos best = best"
| "rfind_from c (x # xs) pos best = rfind_from c xs (pos + 1) (if x = c then pos else best)"

definition rfind :: "char \<Rightarrow> string \<Rightarrow> int" where
  "rfind c s = rfind_from c s 0 (- 1)"

text \<open>\<open>Path.stem\<close>: the name without its last suffix.\<close>

definition path_stem :: "path \<Rightarrow> string" where
  "path_stem p =
     (let i = rfind CHR ''.'' (path_name p)
      in if 0 < i \<and> i < int (length (path_name p)) - 1 then take (nat i) (path_name p) else path_name p)"

text \<open>\<open>str.lower()\<close>, on the ASCII letters (other characters are kept).\<close>

definition lower_char :: "char \<Rightarrow> char" where
  "lower_char c =
     (if CHR ''A'' \<le> c \<and> c \<le> CHR ''Z'' then char_of (of_char c + (32 :: nat)) else c)"

definition str_lower :: "string \<Rightarrow> string" where
  "str_lower s = map lower_char s"

text \<open>
  \<open>d[k] = v\<close> on a dictionary in insertion order: an existing key keeps its place and
  takes the new value, a new key goes to the end.
\<close>

fun dict_set :: "('k \<times> 'v) list \<Rightarrow> 'k \<Rightarrow> 'v \<Rightarrow> ('k \<times> 'v) list" where
  "dict_set [] k v = [(k, v)]"
| "dict_set ((k', v') # d) k v = (if k' = k then (k, v) # d else (k', v') # dict_set d k v)"

text \<open>The body of the loop over the sorted paths.\<close>

definition collect_step :: "texmap \<Rightarrow> path \<Rightarrow> texmap" where
  "collect_step textures p =
     (if suffix ''.png.mcmeta'' (path_name p) then textures
      else dict_set textures (str_lower (path_stem p)) p)"

definition collect_textures_in_moddir :: "fs \<Rightarrow> path \<Rightarrow> texmap" where
  "collect_textures_in_moddir fs moddir = foldl collect_step [] (sort (rglob_png fs moddir))"

subsection \<open>The jobs\<close>

type_synonym job = "string \<times> string \<times> texmap"

text \<open>\<open>groups.setdefault(base, {})[stem] = path\<close>.\<close>

fun group_add :: "(string \<times> texmap) list \<Rightarrow> string \<Rightarrow> string \<Rightarrow> path \<Rightarrow> (string \<times> texmap) list" where
  "group_add [] base st p = [(base, [(st, p)])]"
| "group_add ((b, texmap) # groups) base st p =
     (if b = base then (b, dict_set texmap st p) # groups
      else (b, texmap) # group_add groups base st p)"

definition group_textures :: "texmap \<Rightarrow> (string \<times> texmap) list" where
  "group_textures textures =
     foldl (\<lambda>groups (st, p). group_add groups (re_sub_suffix st) st p) [] textures"

text \<open>One turn of the loop \<open>for moddir in mod_dirs\<close>: the jobs of one directory.\<close>

definition jobs_of_moddir :: "fs \<Rightarrow> path \<Rightarrow> job list" where
  "jobs_of_moddir fs moddir =
     (let textures = collect_textures_in_moddir fs moddir
      in if textures = [] then []
         else map (\<lambda>(base, texmap). (path_name moddir, base, texmap)) (group_textures textures))"

text \<open>The list \<open>mod_dirs\<close> and the list \<open>jobs\<close> of \<open>main\<close>, for an existing root.\<close>

definition collect_jobs :: "fs \<Rightarrow> path \<Rightarrow> exn + job list" where
  "collect_jobs fs blocks_root =
     and_then (iterdir fs blocks_root) (\<lambda>children.
       let subdirs = filter (is_dir fs) children;
           mod_dirs = (if subdirs = [] then [blocks_root] else subdirs)
       in Inr (concat (map (jobs_of_moddir fs) mod_dirs)))"

subsection \<open>Loading, saving and the loop of \<open>main\<close>\<close>

text \<open>
  \<open>load_png\<close>: \<open>Image.open(path).convert("RGBA")\<close>. The argument is a slot of \<open>faces\<close>;
  \<open>None\<close> has no \<open>read\<close>.
\<close>

definition load_png :: "fs \<Rightarrow> path option \<Rightarrow> exn + image" where
  "load_png fs slot =
     (case slot of
        None \<Rightarrow> Inl AttributeError
      | Some p \<Rightarrow>
          (case lookup fs p of
             None \<Rightarrow> Inl FileNotFoundError
           | Some Dir \<Rightarrow> Inl IsADirectoryError
           | Some (File Undecodable) \<Rightarrow> Inl UnidentifiedImageError
           | Some (File (Png img)) \<Rightarrow> Inr img))"

text \<open>The \<open>try\<close> block of the loop: the three loads, in order.\<close>

definition load_faces :: "fs \<Rightarrow> faces \<Rightarrow> exn + (image \<times> image \<times> image)" where
  "load_faces fs f =
     and_then (load_png fs (top_face f)) (\<lambda>top_img.
     and_then (load_png fs (left_face f)) (\<lambda>left_img.
     and_then (load_png fs (right_face f)) (\<lambda>right_img.
       Inr (top_img, left_img, right_img))))"

text \<open>
  \<open>os.path.splitext(name)[1]\<close>: the text from the last dot on, unless only dots stand
  before it.
\<close>

definition splitext_ext :: "string \<Rightarrow> string" where
  "splitext_ext s =
     (let i = rfind CHR ''.'' s
      in if i < 0 \<or> list_all (\<lambda>c. c = CHR ''.'') (take (nat i) s) then []
         else drop (nat i) s)"

text \<open>
  \<open>iso.save(out_path)\<close>: Pillow takes the format from the extension and raises
  \<open>ValueError\<close> when the name has none that it knows (the names written here end in
  \<open>.png\<close>); then the file is opened for writing and the image is written. Writing replaces
  an existing file.
\<close>

definition save :: "fs \<Rightarrow> path \<Rightarrow> image \<Rightarrow> exn + fs" where
  "save fs p img =
     (if str_lower (splitext_ext (path_name p)) \<noteq> ''.png'' then Inl ValueError
      else (case lookup fs p of
              Some Dir \<Rightarrow> Inl IsADirectoryError
            | _ \<Rightarrow>
              (case lookup fs (butlast p) of
                 None \<Rightarrow> Inl FileNotFoundError
               | Some (File _) \<Rightarrow> Inl NotADirectoryError
               | Some Dir \<Rightarrow> Inr (dict_set fs p (File (Png img))))))"

text \<open>What the program prints, one value per \<open>print\<close>.\<close>

datatype event =
    MissingRoot path
  | NothingToRender
  | Warning string string exn
  | Progress nat nat nat string string
  | Summary nat nat
  | OutputAt path

text \<open>How a run ends: \<open>main\<close> returns, or an exception leaves it.\<close>

datatype outcome = Returned | Raised exn

text \<open>
  The loop \<open>for modid, base, texmap in jobs\<close> and the two prints after it. The state is
  the file system, what was printed so far, and the counter \<open>done\<close>. Only the loads stand
  in the \<open>try\<close> block.
\<close>

fun run_jobs :: "pil \<Rightarrow> int \<Rightarrow> path \<Rightarrow> nat \<Rightarrow> job list \<Rightarrow> fs \<times> event list \<times> nat
    \<Rightarrow> outcome \<times> fs \<times> event list" where
  "run_jobs P edge out_root n_jobs [] (fs, printed, done) =
     (Returned, fs, printed @ [Summary done n_jobs, OutputAt out_root])"
| "run_jobs P edge out_root n_jobs ((modid, base, texmap) # jobs) (fs, printed, done) =
     (case find_faces texmap of
        Inl e \<Rightarrow> (Raised e, fs, printed)
      | Inr f \<Rightarrow>
        (case load_faces fs f of
           Inl e \<Rightarrow>
             run_jobs P edge out_root n_jobs jobs (fs, printed @ [Warning modid base e], done + 1)
         | Inr (top_img, left_img, right_img) \<Rightarrow>
           (case make_iso_cube P top_img left_img right_img edge of
              Inl e \<Rightarrow> (Raised e, fs, printed)
            | Inr cube \<Rightarrow>
              (case mkdir_parents fs (join out_root modid) of
                 Inl e \<Rightarrow> (Raised e, fs, printed)
               | Inr fs1 \<Rightarrow>
                 (case save fs1 (join (join out_root modid) (base @ ''.png'')) cube of
                    Inl e \<Rightarrow> (Raised e, fs1, printed)
                  | Inr fs2 \<Rightarrow>
                      run_jobs P edge out_root n_jobs jobs
                        (fs2,
                         printed @ [Progress (done + 1) n_jobs ((done + 1) * 100 div n_jobs) modid base],
                         done + 1))))))"

text \<open>
  \<open>main\<close> after the command line is parsed: the two roots are absolute paths, \<open>edge\<close> is
  \<open>args.size\<close>.
\<close>

definition main :: "pil \<Rightarrow> path \<Rightarrow> path \<Rightarrow> int \<Rightarrow> fs \<Rightarrow> outcome \<times> fs \<times> event list" where
  "main P blocks_root out_root edge fs =
     (case mkdir_parents fs out_root of
        Inl e \<Rightarrow> (Raised e, fs, [])
      | Inr fs1 \<Rightarrow>
          if \<not> path_exists fs1 blocks_root then (Returned, fs1, [MissingRoot blocks_root])
          else (case collect_jobs fs1 blocks_root of
                  Inl e \<Rightarrow> (Raised e, fs1, [])
                | Inr jobs \<Rightarrow>
                    if length jobs = 0 then (Returned, fs1, [NothingToRender])
                    else run_jobs P edge out_root (length jobs) jobs (fs1, [], 0)))"


section \<open>The face resolver\<close>

lemma pick_by_keys_in: "pick_by_keys t keys = Some p \<Longrightarrow> p \<in> snd ` set t"
  by (induction t keys rule: pick_by_keys.induct) (auto split: if_splits)

definition bound_in :: "path set \<Rightarrow> path option \<Rightarrow> bool" where
  "bound_in S v \<longleftrightarrow> (\<exists>p \<in> S. v = Some p)"

definition free_or_in :: "path set \<Rightarrow> path option \<Rightarrow> bool" where
  "free_or_in S v \<longleftrightarrow> v = None \<or> bound_in S v"

lemma free_or_in_pick: "free_or_in (snd ` set t) (pick_by_keys t keys)"
  by (cases "pick_by_keys t keys") (auto simp: free_or_in_def bound_in_def dest: pick_by_keys_in)

lemma free_or_in_py_or: "free_or_in S x \<Longrightarrow> free_or_in S y \<Longrightarrow> free_or_in S (py_or x y)"
  by (auto simp: py_or_def free_or_in_def split: option.splits)

lemma py_or_None_iff: "py_or x y = None \<longleftrightarrow> x = None \<and> y = None"
  by (cases x) (simp_all add: py_or_def)

lemma bound_in_fill:
  assumes "free_or_in S v" and "bound_in S b"
  shows "bound_in S (if v = None then b else v)"
  using assms by (auto simp: free_or_in_def)

lemma free_or_in_not_None: "free_or_in S v \<Longrightarrow> v \<noteq> None \<Longrightarrow> bound_in S v"
  by (simp add: free_or_in_def)

lemma fill_faces_bound:
  assumes a: "any_face f" and b: "\<forall>v \<in> set (faces_values f). free_or_in S v"
  shows "\<forall>v \<in> set (faces_values (fill_faces f)). bound_in S v"
proof -
  let ?base = "py_or (py_or (py_or (top_face f) (left_face f)) (right_face f)) (bottom_face f)"
  have t: "free_or_in S (top_face f)" and bo: "free_or_in S (bottom_face f)"
    and l: "free_or_in S (left_face f)" and r: "free_or_in S (right_face f)"
    using b by (simp_all add: faces_values_def)
  have "?base \<noteq> None"
    using a by (auto simp: any_face_def faces_values_def py_or_None_iff)
  moreover have "free_or_in S ?base"
    by (intro free_or_in_py_or t bo l r)
  ultimately have base: "bound_in S ?base"
    by (rule free_or_in_not_None[rotated])
  show ?thesis
    by (simp add: fill_faces_def Let_def faces_values_def bound_in_fill[OF _ base] t bo l r)
qed

definition HEURISTIC_KEYS :: "string list list" where
  "HEURISTIC_KEYS = [TOP_KEYS, BOTTOM_KEYS, SIDE_KEYS, FACE_KEYS North, FACE_KEYS South,
                     FACE_KEYS East, FACE_KEYS West]"

lemma keyword_faces_within:
  "\<forall>v \<in> set (faces_values (keyword_faces t)). free_or_in (snd ` set t) v"
  by (simp add: keyword_faces_def Let_def faces_values_def free_or_in_pick free_or_in_py_or)

lemma keyword_faces_none:
  assumes "\<forall>keys \<in> set HEURISTIC_KEYS. pick_by_keys t keys = None"
  shows "\<not> any_face (keyword_faces t)"
  using assms
  by (simp add: HEURISTIC_KEYS_def keyword_faces_def Let_def any_face_def faces_values_def py_or_def)

lemma fill_faces_single:
  "faces_values (fill_faces \<lparr>top_face = Some p, bottom_face = Some p,
                               left_face = Some p, right_face = Some p\<rparr>) =
   [Some p, Some p, Some p, Some p]"
  by (simp add: fill_faces_def faces_values_def Let_def py_or_def)

text \<open>
  C1. For a non-empty texture map \<open>find_faces\<close> returns (it does not raise), and each of the
  four slots of the result is bound to a location of the map: no slot is \<open>None\<close>. When
  none of the seven keyword heuristics matches any name, all four slots are bound to one
  texture, the first value of the map.
\<close>

theorem find_faces_total:
  assumes "textures \<noteq> []"
  shows "\<exists>f. find_faces textures = Inr f \<and>
     (\<forall>v \<in> set (faces_values f). \<exists>p \<in> snd ` set textures. v = Some p) \<and>
     ((\<forall>keys \<in> set HEURISTIC_KEYS. pick_by_keys textures keys = None)
       \<longrightarrow> (\<forall>v \<in> set (faces_values f). v = Some (snd (hd textures))))"
proof -
  let ?S = "snd ` set textures"
  let ?f = "keyword_faces textures"
  obtain stem any_tex rest where t: "textures = (stem, any_tex) # rest"
    using assms by (cases textures) auto
  let ?g = "\<lparr>top_face = Some any_tex, bottom_face = Some any_tex,
             left_face = Some any_tex, right_face = Some any_tex\<rparr>"
  show ?thesis
  proof (cases "any_face ?f")
    case True
    have b: "\<forall>v \<in> set (faces_values (fill_faces ?f)). bound_in ?S v"
      using True keyword_faces_within by (rule fill_faces_bound)
    have r: "find_faces textures = Inr (fill_faces ?f)"
      using True by (simp add: find_faces_def)
    have n: "\<not> (\<forall>keys \<in> set HEURISTIC_KEYS. pick_by_keys textures keys = None)"
      using True keyword_faces_none by blast
    from b have b': "\<forall>v \<in> set (faces_values (fill_faces ?f)). \<exists>p \<in> ?S. v = Some p"
      by (simp only: bound_in_def)
    from r b' n show ?thesis by blast
  next
    case False
    have r: "find_faces textures = Inr (fill_faces ?g)"
      using False by (simp add: find_faces_def t)
    have v: "\<forall>v \<in> set (faces_values (fill_faces ?g)). v = Some (snd (hd textures))"
      by (simp add: fill_faces_single t)
    have m: "snd (hd textures) \<in> ?S"
      by (simp add: t)
    from v m have v': "\<forall>v \<in> set (faces_values (fill_faces ?g)). \<exists>p \<in> ?S. v = Some p"
      by blast
    from r v v' show ?thesis by blast
  qed
qed

theorem find_faces_total_witness:
  "\<exists>f. find_faces [(''lever'', [''blocks'', ''mod'', ''lever.png''])] = Inr f \<and>
       faces_values f = replicate 4 (Some [''blocks'', ''mod'', ''lever.png''])"
proof -
  let ?T = "[(''lever'', [''blocks'', ''mod'', ''lever.png''])]"
  have ne: "?T \<noteq> []" by simp
  have none: "\<forall>keys \<in> set HEURISTIC_KEYS. pick_by_keys ?T keys = None"
    by (simp add: HEURISTIC_KEYS_def TOP_KEYS_def BOTTOM_KEYS_def SIDE_KEYS_def
        re_search_key_def key_here_def is_delim_def at_dollar_def)
  from find_faces_total[OF ne] none obtain f where
    r: "find_faces ?T = Inr f" and
    v: "\<forall>v \<in> set (faces_values f). v = Some (snd (hd ?T))"
    by blast
  from v have "faces_values f = replicate 4 (Some [''blocks'', ''mod'', ''lever.png''])"
    by (simp add: faces_values_def numeral_eq_Suc)
  with r show ?thesis by blast
qed

lemma py_or_Some: "py_or (Some p) y = Some p"
  by (simp add: py_or_def)

lemma py_or_None: "py_or None y = y"
  by (simp add: py_or_def)

lemma fill_faces_keep_left:
  "left_face f = Some p \<Longrightarrow> left_face (fill_faces f) = Some p"
  by (simp add: fill_faces_def Let_def)

lemma fill_faces_keep_right:
  "right_face f = Some p \<Longrightarrow> right_face (fill_faces f) = Some p"
  by (simp add: fill_faces_def Let_def)

lemma any_face_left: "left_face f = Some p \<Longrightarrow> any_face f"
  by (simp add: any_face_def faces_values_def)

lemma find_faces_keep_sides:
  assumes l: "left_face (keyword_faces t) = Some p" and r: "right_face (keyword_faces t) = Some q"
  shows "\<exists>f. find_faces t = Inr f \<and> left_face f = Some p \<and> right_face f = Some q"
  using any_face_left[OF l] fill_faces_keep_left[OF l] fill_faces_keep_right[OF r]
  by (simp add: find_faces_def)

lemma find_py_or:
  "find (\<lambda>x. x \<noteq> None) [a, b, c, d] = Some v \<Longrightarrow> py_or (py_or (py_or a b) c) d = v"
  by (cases a; cases b; cases c; cases d) (auto simp: py_or_def)

lemma find_Some_not_None: "find (\<lambda>x. x \<noteq> None) xs = Some v \<Longrightarrow> \<exists>p. v = Some p"
  by (auto simp: find_Some_iff)

text \<open>
  C4. If some name matches a side keyword (\<open>side\<close>, \<open>sides\<close>), \<open>left\<close> and \<open>right\<close> are both
  bound to the first such texture. Otherwise \<open>left\<close> is bound to the first present of
  west, south, east, north and \<open>right\<close> to the first present of east, north, west, south.
\<close>

theorem find_faces_sides:
  fixes textures :: texmap
  defines "north \<equiv> pick_by_keys textures (FACE_KEYS North)"
      and "south \<equiv> pick_by_keys textures (FACE_KEYS South)"
      and "east \<equiv> pick_by_keys textures (FACE_KEYS East)"
      and "west \<equiv> pick_by_keys textures (FACE_KEYS West)"
  shows "(\<forall>side. pick_by_keys textures SIDE_KEYS = Some side \<longrightarrow>
            (\<exists>f. find_faces textures = Inr f \<and> left_face f = Some side \<and> right_face f = Some side)) \<and>
         (\<forall>l r. pick_by_keys textures SIDE_KEYS = None \<and>
                find (\<lambda>x. x \<noteq> None) [west, south, east, north] = Some l \<and>
                find (\<lambda>x. x \<noteq> None) [east, north, west, south] = Some r \<longrightarrow>
            (\<exists>f. find_faces textures = Inr f \<and> left_face f = l \<and> right_face f = r))"
proof (intro conjI allI impI)
  fix side assume s: "pick_by_keys textures SIDE_KEYS = Some side"
  have "left_face (keyword_faces textures) = Some side" "right_face (keyword_faces textures) = Some side"
    using s by (simp_all add: keyword_faces_def Let_def)
  then show "\<exists>f. find_faces textures = Inr f \<and> left_face f = Some side \<and> right_face f = Some side"
    by (rule find_faces_keep_sides)
next
  fix l r
  assume a: "pick_by_keys textures SIDE_KEYS = None \<and>
             find (\<lambda>x. x \<noteq> None) [west, south, east, north] = Some l \<and>
             find (\<lambda>x. x \<noteq> None) [east, north, west, south] = Some r"
  then have kl: "left_face (keyword_faces textures) = l" and kr: "right_face (keyword_faces textures) = r"
    using find_py_or[of west south east north l] find_py_or[of east north west south r]
    by (simp_all add: keyword_faces_def Let_def north_def south_def east_def west_def)
  from a obtain p q where "l = Some p" "r = Some q"
    using find_Some_not_None by blast
  with kl kr show "\<exists>f. find_faces textures = Inr f \<and> left_face f = l \<and> right_face f = r"
    using find_faces_keep_sides by simp
qed

theorem find_faces_sides_witness:
  "(\<exists>f. find_faces [(''stone_side'', [''m'', ''stone_side.png'']),
                     (''stone_top'', [''m'', ''stone_top.png''])] = Inr f \<and>
        left_face f = Some [''m'', ''stone_side.png''] \<and>
        right_face f = Some [''m'', ''stone_side.png'']) \<and>
   (\<exists>f. find_faces [(''stone_east'', [''m'', ''stone_east.png'']),
                     (''stone_north'', [''m'', ''stone_north.png'']),
                     (''stone_south'', [''m'', ''stone_south.png'']),
                     (''stone_west'', [''m'', ''stone_west.png''])] = Inr f \<and>
        left_face f = Some [''m'', ''stone_west.png''] \<and>
        right_face f = Some [''m'', ''stone_east.png''])"
proof -
  let ?A = "[(''stone_side'', [''m'', ''stone_side.png'']), (''stone_top'', [''m'', ''stone_top.png''])]"
  let ?B = "[(''stone_east'', [''m'', ''stone_east.png'']), (''stone_north'', [''m'', ''stone_north.png'']),
             (''stone_south'', [''m'', ''stone_south.png'']), (''stone_west'', [''m'', ''stone_west.png''])]"
  have a: "pick_by_keys ?A SIDE_KEYS = Some [''m'', ''stone_side.png'']"
    by (simp add: SIDE_KEYS_def re_search_key_def key_here_def is_delim_def at_dollar_def)
  have b: "pick_by_keys ?B SIDE_KEYS = None"
    by (simp add: SIDE_KEYS_def re_search_key_def key_here_def is_delim_def at_dollar_def)
  have w: "pick_by_keys ?B (FACE_KEYS West) = Some [''m'', ''stone_west.png'']"
    by (simp add: re_search_key_def key_here_def is_delim_def at_dollar_def)
  have e: "pick_by_keys ?B (FACE_KEYS East) = Some [''m'', ''stone_east.png'']"
    by (simp add: re_search_key_def key_here_def is_delim_def at_dollar_def)
  have l: "find (\<lambda>x. x \<noteq> None)
             [pick_by_keys ?B (FACE_KEYS West), pick_by_keys ?B (FACE_KEYS South),
              pick_by_keys ?B (FACE_KEYS East), pick_by_keys ?B (FACE_KEYS North)]
           = Some (Some [''m'', ''stone_west.png''])"
    unfolding w by simp
  have r: "find (\<lambda>x. x \<noteq> None)
             [pick_by_keys ?B (FACE_KEYS East), pick_by_keys ?B (FACE_KEYS North),
              pick_by_keys ?B (FACE_KEYS West), pick_by_keys ?B (FACE_KEYS South)]
           = Some (Some [''m'', ''stone_east.png''])"
    unfolding e by simp
  from find_faces_sides[of ?A] a
  have "\<exists>f. find_faces ?A = Inr f \<and> left_face f = Some [''m'', ''stone_side.png''] \<and>
            right_face f = Some [''m'', ''stone_side.png'']"
    by blast
  moreover from find_faces_sides[of ?B] b l r
  have "\<exists>f. find_faces ?B = Inr f \<and> left_face f = Some [''m'', ''stone_west.png''] \<and>
            right_face f = Some [''m'', ''stone_east.png'']"
    by blast
  ultimately show ?thesis by blast
qed

subsection \<open>Delimited keywords\<close>

lemma match_literal_iff: "match_literal k s = Some rest \<longleftrightarrow> s = k @ rest"
  by (induction k s rule: match_literal.induct) auto

text \<open>
  The specification's notion of a delimited token: the name is cut at every underscore
  and hyphen, and the keyword must be one of the pieces. This definition follows the
  specification's words; \<open>re_search_key\<close> above follows the regular expression.
\<close>

fun split_delims :: "string \<Rightarrow> string list" where
  "split_delims [] = [[]]"
| "split_delims (c # cs) =
     (if is_delim c then [] # split_delims cs
      else (case split_delims cs of [] \<Rightarrow> [[c]] | seg # segs \<Rightarrow> (c # seg) # segs))"

definition whole_segment :: "string \<Rightarrow> string \<Rightarrow> bool" where
  "whole_segment k name \<longleftrightarrow> k \<in> set (split_delims name)"

lemma split_delims_not_Nil: "split_delims s \<noteq> []"
  by (induction s) (auto split: list.splits)

lemma key_here_Nil: "key_here k [] \<longleftrightarrow> k = []"
  by (cases k) (simp_all add: key_here_def)

lemma key_here_Cons_same: "key_here (c # ks) (c # cs) = key_here ks cs"
  by (simp add: key_here_def)

lemma key_here_Cons_diff: "k \<noteq> c \<Longrightarrow> \<not> key_here (k # ks) (c # cs)"
  by (simp add: key_here_def)

lemma key_here_empty_key: "key_here [] (c # cs) \<longleftrightarrow> is_delim c \<or> (c = CHR 0x0A \<and> cs = [])"
  by (simp add: key_here_def at_dollar_def)

lemma key_here_first_segment:
  assumes "\<forall>c \<in> set k. \<not> is_delim c" and "CHR 0x0A \<notin> set s"
  shows "key_here k s \<longleftrightarrow> hd (split_delims s) = k"
  using assms
proof (induction s arbitrary: k)
  case Nil
  show ?case by (auto simp: key_here_Nil)
next
  case (Cons c cs)
  obtain seg segs where sp: "split_delims cs = seg # segs"
    using split_delims_not_Nil by (cases "split_delims cs") auto
  show ?case
  proof (cases k)
    case Nil
    with Cons.prems sp show ?thesis by (auto simp: key_here_empty_key)
  next
    case (Cons k0 ks)
    show ?thesis
    proof (cases "k0 = c")
      case True
      have "key_here ks cs \<longleftrightarrow> hd (split_delims cs) = ks"
        using Cons.IH[of ks] Cons.prems Cons by simp
      with True Cons Cons.prems sp show ?thesis by (auto simp: key_here_Cons_same)
    next
      case False
      with Cons Cons.prems sp show ?thesis by (auto simp: key_here_Cons_diff)
    qed
  qed
qed

lemma search_from_segments:
  assumes "\<forall>c \<in> set k. \<not> is_delim c" and "CHR 0x0A \<notin> set s"
  shows "search_from k b s \<longleftrightarrow> k \<in> set (if b then split_delims s else tl (split_delims s))"
  using assms
proof (induction s arbitrary: b)
  case Nil
  show ?case by (auto simp: key_here_Nil)
next
  case (Cons c cs)
  obtain seg segs where sp: "split_delims cs = seg # segs"
    using split_delims_not_Nil by (cases "split_delims cs") auto
  have kh: "key_here k (c # cs) \<longleftrightarrow> hd (split_delims (c # cs)) = k"
    using Cons.prems by (rule key_here_first_segment)
  have ih: "search_from k b' cs \<longleftrightarrow> k \<in> set (if b' then split_delims cs else tl (split_delims cs))" for b'
    using Cons.IH Cons.prems by simp
  show ?case
    by (cases "is_delim c"; cases b) (auto simp: kh ih sp)
qed

text \<open>
  On names without a newline the regular expression and the specification agree, for
  every keyword that holds no underscore and no hyphen (all keywords of the tables).
\<close>

lemma re_search_key_whole_segment:
  assumes "\<forall>c \<in> set k. \<not> is_delim c" and "CHR 0x0A \<notin> set name"
  shows "re_search_key k name \<longleftrightarrow> whole_segment k name"
  using search_from_segments[OF assms, of True] by (simp add: re_search_key_def whole_segment_def)

text \<open>
  The two names of the specification: \<open>northlands_block\<close> does not match \<open>north\<close>,
  \<open>stone_north\<close> does.
\<close>

lemma re_search_key_examples:
  "\<not> re_search_key ''north'' ''northlands_block'' \<and> re_search_key ''north'' ''stone_north''"
  by (simp add: re_search_key_def key_here_def is_delim_def at_dollar_def)

text \<open>
  C3. Keyword matching is meant to accept a keyword only as a whole underscore- or
  hyphen-delimited segment of the name. At a name that ends in a newline the code
  departs from that: \<open>$\<close> also matches before a final newline, so the name "north" followed
  by a newline is picked for the keyword \<open>north\<close>, whose only segment is not \<open>north\<close>.
\<close>

theorem pick_by_keys_trailing_newline:
  "pick_by_keys [(''north'' @ [CHR 0x0A], [''blocks'', ''mod'', ''north'' @ [CHR 0x0A] @ ''.png''])]
     (FACE_KEYS North) = Some [''blocks'', ''mod'', ''north'' @ [CHR 0x0A] @ ''.png''] \<and>
   \<not> whole_segment ''north'' (''north'' @ [CHR 0x0A])"
  by (simp add: re_search_key_def key_here_def is_delim_def at_dollar_def whole_segment_def)

section \<open>The job grouper\<close>

lemma match_literal_append: "match_literal k (k @ rest) = Some rest"
  by (simp add: match_literal_iff)

lemma match_alt_SomeD:
  "match_alt ts s = Some rest \<Longrightarrow> \<exists>t \<in> set ts. s = t @ rest \<and> at_dollar rest"
  by (induction ts) (auto split: option.splits if_splits simp: match_literal_iff)

lemma match_alt_NoneD:
  "match_alt ts s = None \<Longrightarrow> t \<in> set ts \<Longrightarrow> at_dollar rest \<Longrightarrow> s \<noteq> t @ rest"
  by (induction ts) (auto split: option.splits if_splits simp: match_literal_append)

lemma suffix_token_chars:
  "t \<in> set SUFFIX_TOKENS \<Longrightarrow> t \<noteq> [] \<and> CHR ''_'' \<notin> set t \<and> CHR 0x0A \<notin> set t"
  by (auto simp: SUFFIX_TOKENS_def)

lemma match_alt_token:
  assumes "t \<in> set SUFFIX_TOKENS"
  shows "match_alt SUFFIX_TOKENS t = Some []"
proof (cases "match_alt SUFFIX_TOKENS t")
  case None
  from match_alt_NoneD[OF None assms, of "[]"] show ?thesis by (simp add: at_dollar_def)
next
  case (Some rest)
  then obtain u where u: "u \<in> set SUFFIX_TOKENS" "t = u @ rest" "at_dollar rest"
    using match_alt_SomeD by blast
  have "CHR 0x0A \<notin> set t" using assms suffix_token_chars by blast
  with u have "rest = []" by (auto simp: at_dollar_def)
  with Some show ?thesis by simp
qed

lemma match_alt_interior:
  assumes "t \<in> set SUFFIX_TOKENS"
  shows "match_alt SUFFIX_TOKENS (p @ CHR ''_'' # t) = None"
proof (cases "match_alt SUFFIX_TOKENS (p @ CHR ''_'' # t)")
  case None then show ?thesis .
next
  case (Some rest)
  then obtain u where u: "u \<in> set SUFFIX_TOKENS" "p @ CHR ''_'' # t = u @ rest" "at_dollar rest"
    using match_alt_SomeD by blast
  have t: "t \<noteq> []" "CHR 0x0A \<notin> set t" using assms suffix_token_chars by blast+
  have un: "CHR ''_'' \<notin> set u" using u(1) suffix_token_chars by blast
  from u(3) show ?thesis
  proof (unfold at_dollar_def, elim disjE)
    assume "rest = []"
    with u(2) have "CHR ''_'' \<in> set u" by (metis append_Nil2 in_set_conv_decomp)
    with un show ?thesis by simp
  next
    assume r: "rest = [CHR 0x0A]"
    have "last (p @ CHR ''_'' # t) = last t" using t(1) by simp
    moreover have "last (u @ rest) = CHR 0x0A" using r by simp
    ultimately have "last t = CHR 0x0A" using u(2) by simp
    with t show ?thesis using last_in_set by metis
  qed
qed

lemma re_sub_suffix_strip:
  assumes "t \<in> set SUFFIX_TOKENS"
  shows "re_sub_suffix (p @ CHR ''_'' # t) = p"
proof (induction p)
  case Nil
  show ?case by (simp add: match_alt_token[OF assms])
next
  case (Cons c p)
  then show ?case by (simp add: match_alt_interior[OF assms])
qed

lemma re_sub_suffix_keep:
  assumes "\<forall>t \<in> set SUFFIX_TOKENS. \<not> suffix (CHR ''_'' # t) s"
    and "s = [] \<or> last s \<noteq> CHR 0x0A"
  shows "re_sub_suffix s = s"
  using assms
proof (induction s)
  case Nil
  show ?case by simp
next
  case (Cons c cs)
  have tl: "\<forall>t \<in> set SUFFIX_TOKENS. \<not> suffix (CHR ''_'' # t) cs"
    using Cons.prems(1) by (meson suffix_ConsI)
  have nl: "cs = [] \<or> last cs \<noteq> CHR 0x0A"
    using Cons.prems(2) by auto
  have ih: "re_sub_suffix cs = cs" using Cons.IH tl nl by blast
  have "match_alt SUFFIX_TOKENS cs = None" if "c = CHR ''_''"
  proof (cases "match_alt SUFFIX_TOKENS cs")
    case None then show ?thesis .
  next
    case (Some rest)
    then obtain u where u: "u \<in> set SUFFIX_TOKENS" "cs = u @ rest" "at_dollar rest"
      using match_alt_SomeD by blast
    have une: "u \<noteq> []" using u(1) suffix_token_chars by blast
    from u(3) show ?thesis
    proof (unfold at_dollar_def, elim disjE)
      assume "rest = []"
      with u(2) that have "c # cs = CHR ''_'' # u" by simp
      then have "suffix (CHR ''_'' # u) (c # cs)" by simp
      with Cons.prems(1) u(1) show ?thesis by blast
    next
      assume "rest = [CHR 0x0A]"
      with u(2) have "last (c # cs) = CHR 0x0A" by simp
      with Cons.prems(2) show ?thesis by simp
    qed
  qed
  with ih show ?case by simp
qed

text \<open>
  C2 (amended). The grouping key of a name is the name without one trailing
  \<open>_token\<close>, for the tokens top, bottom, side, north, south, east, west: the underscore
  and the token are removed together, only at the very end, and only once. A name that
  does not end in \<open>_token\<close> (a token after a hyphen, a token that is the whole name, a
  token in the interior) is its own key. Names that end in a newline are left out.
\<close>

theorem re_sub_suffix_spec:
  "(\<forall>t \<in> set SUFFIX_TOKENS. re_sub_suffix (p @ ''_'' @ t) = p) \<and>
   ((\<forall>t \<in> set SUFFIX_TOKENS. \<not> suffix (''_'' @ t) s) \<and> (s = [] \<or> last s \<noteq> CHR 0x0A)
      \<longrightarrow> re_sub_suffix s = s)"
  using re_sub_suffix_strip re_sub_suffix_keep by simp

theorem re_sub_suffix_spec_witness:
  "re_sub_suffix ''stone_top'' = ''stone'' \<and> re_sub_suffix ''stone_top_top'' = ''stone_top'' \<and>
   re_sub_suffix ''top_stone'' = ''top_stone''"
proof -
  have a: "''top'' \<in> set SUFFIX_TOKENS" by (simp add: SUFFIX_TOKENS_def)
  have b: "(\<forall>t \<in> set SUFFIX_TOKENS. \<not> suffix (''_'' @ t) ''top_stone'') \<and>
           (''top_stone'' = [] \<or> last ''top_stone'' \<noteq> CHR 0x0A)"
    by (simp add: SUFFIX_TOKENS_def suffix_to_prefix)
  from re_sub_suffix_spec[of "''stone''" "''top_stone''"] a b
  have "re_sub_suffix (''stone'' @ ''_'' @ ''top'') = ''stone''" "re_sub_suffix ''top_stone'' = ''top_stone''"
    by blast+
  moreover from re_sub_suffix_spec[of "''stone_top''" "''top_stone''"] a
  have "re_sub_suffix (''stone_top'' @ ''_'' @ ''top'') = ''stone_top''" by blast
  ultimately show ?thesis by simp
qed

text \<open>
  C2 as stated fails: a token delimited by a hyphen, or by the string boundary on its
  left, is not removed.
\<close>

theorem re_sub_suffix_hyphen_counterexample:
  "re_sub_suffix ''stone-top'' = ''stone-top'' \<and> re_sub_suffix ''top'' = ''top''"
  by (simp add: SUFFIX_TOKENS_def at_dollar_def)

section \<open>The crop of the compositor\<close>

lemma list_ex_upt: "list_ex P [0..<n] \<longleftrightarrow> (\<exists>i<n. P i)"
  by (auto simp: list_ex_iff)

lemma in_content_columns:
  "x \<in> set (content_columns img) \<longleftrightarrow> x < width img \<and> (\<exists>y < height img. visible img x y)"
  by (auto simp: content_columns_def list_ex_upt)

lemma in_content_rows:
  "y \<in> set (content_rows img) \<longleftrightarrow> y < height img \<and> (\<exists>x < width img. visible img x y)"
  by (auto simp: content_rows_def list_ex_upt)

lemma sorted_content_columns: "sorted (content_columns img)"
  by (simp add: content_columns_def sorted_wrt_filter)

lemma sorted_content_rows: "sorted (content_rows img)"
  by (simp add: content_rows_def sorted_wrt_filter)

lemma sorted_le_last: "sorted xs \<Longrightarrow> x \<in> set xs \<Longrightarrow> x \<le> last (xs :: nat list)"
  by (induction xs) auto

lemma sorted_between:
  assumes "sorted (c # cs)" and "x \<in> set (c # cs)"
  shows "c \<le> x \<and> x \<le> last (c # (cs :: nat list))"
  using assms sorted_le_last[OF assms] by auto

lemma content_columns_Nil: "content_columns img = [] \<longleftrightarrow> \<not> has_content img"
  by (auto simp: content_columns_def has_content_def filter_empty_conv list_ex_upt)

lemma content_rows_Nil: "content_rows img = [] \<longleftrightarrow> \<not> has_content img"
  by (auto simp: content_rows_def has_content_def filter_empty_conv list_ex_upt)

lemma getbbox_None: "getbbox img = None \<longleftrightarrow> \<not> has_content img"
  using content_columns_Nil[of img] content_rows_Nil[of img]
  by (auto simp: getbbox_def split: list.splits)

lemma getbbox_SomeD:
  assumes "getbbox img = Some (l, u, r, b)"
  shows "l \<in> set (content_columns img)" "u \<in> set (content_rows img)"
    "r - 1 \<in> set (content_columns img)" "b - 1 \<in> set (content_rows img)"
    "0 < r" "0 < b"
    "\<And>x y. x < width img \<Longrightarrow> y < height img \<Longrightarrow> visible img x y \<Longrightarrow>
       l \<le> x \<and> x < r \<and> u \<le> y \<and> y < b"
proof -
  from assms obtain c cs rw rs where
    cols: "content_columns img = c # cs" and rows: "content_rows img = rw # rs" and
    box: "l = c" "u = rw" "r = last (c # cs) + 1" "b = last (rw # rs) + 1"
    by (auto simp: getbbox_def split: list.splits)
  show "l \<in> set (content_columns img)" "u \<in> set (content_rows img)"
    using cols rows box by simp_all
  show "r - 1 \<in> set (content_columns img)"
    using cols box(3) last_in_set[of "c # cs"] by simp
  show "b - 1 \<in> set (content_rows img)"
    using rows box(4) last_in_set[of "rw # rs"] by simp
  show "0 < r" "0 < b" using box by simp_all
  fix x y assume xy: "x < width img" "y < height img" "visible img x y"
  then have "x \<in> set (c # cs)" "y \<in> set (rw # rs)"
    using in_content_columns[of x img] in_content_rows[of y img] cols rows by auto
  then have "c \<le> x \<and> x \<le> last (c # cs)" "rw \<le> y \<and> y \<le> last (rw # rs)"
    using sorted_between sorted_content_columns[of img] sorted_content_rows[of img] cols rows
    by metis+
  with box show "l \<le> x \<and> x < r \<and> u \<le> y \<and> y < b" by simp
qed

lemma filter_upt_first: "0 < n \<Longrightarrow> P 0 \<Longrightarrow> \<exists>cs. filter P [0..<n] = 0 # cs"
  by (simp add: upt_conv_Cons)

lemma filter_upt_last: "0 < n \<Longrightarrow> P (n - 1) \<Longrightarrow> last (filter P [0..<n]) = n - 1"
  by (cases n) simp_all

lemma getbbox_full:
  assumes w: "0 < width img" and h: "0 < height img"
    and c0: "\<exists>y < height img. visible img 0 y"
    and c1: "\<exists>y < height img. visible img (width img - 1) y"
    and r0: "\<exists>x < width img. visible img x 0"
    and r1: "\<exists>x < width img. visible img x (height img - 1)"
  shows "getbbox img = Some (0, 0, width img, height img)"
proof -
  let ?C = "\<lambda>x. list_ex (\<lambda>y. visible img x y) [0..<height img]"
  let ?R = "\<lambda>y. list_ex (\<lambda>x. visible img x y) [0..<width img]"
  have "?C 0" "?C (width img - 1)" "?R 0" "?R (height img - 1)"
    using c0 c1 r0 r1 by (simp_all add: list_ex_upt)
  then obtain cs rs where
    cols: "content_columns img = 0 # cs" "last (content_columns img) = width img - 1" and
    rows: "content_rows img = 0 # rs" "last (content_rows img) = height img - 1"
    unfolding content_columns_def content_rows_def
    using filter_upt_first[OF w, of ?C] filter_upt_last[OF w, of ?C]
      filter_upt_first[OF h, of ?R] filter_upt_last[OF h, of ?R]
    by blast
  from cols(2) rows(2) have "last (0 # cs) = width img - 1" "last (0 # rs) = height img - 1"
    by (simp_all only: cols(1) rows(1))
  then show ?thesis
    using w h by (simp add: getbbox_def cols(1) rows(1))
qed

lemma crop_getbbox:
  assumes box: "getbbox canvas = Some (l, u, r, b)"
  shows "\<exists>out. crop canvas (l, u, r, b) = Inr out \<and>
           width out = r - l \<and> height out = b - u \<and>
           l < r \<and> r \<le> width canvas \<and> u < b \<and> b \<le> height canvas \<and>
           (\<forall>x < width out. \<forall>y < height out. getpixel out x y = getpixel canvas (l + x) (u + y)) \<and>
           getbbox out = Some (0, 0, width out, height out) \<and>
           (\<exists>x < width out. visible out x 0) \<and>
           (\<exists>x < width out. visible out x (height out - 1)) \<and>
           (\<exists>y < height out. visible out 0 y) \<and>
           (\<exists>y < height out. visible out (width out - 1) y)"
proof -
  note d = getbbox_SomeD[OF box]
  have inside: "l \<le> x \<and> x < r \<and> u \<le> y \<and> y < b"
    if "x < width canvas" "y < height canvas" "visible canvas x y" for x y
    using d(7) that by blast
  from d(1) obtain yl where yl: "l < width canvas" "yl < height canvas" "visible canvas l yl"
    by (auto simp: in_content_columns)
  from d(3) obtain yr where yr: "r - 1 < width canvas" "yr < height canvas" "visible canvas (r - 1) yr"
    by (auto simp: in_content_columns)
  from d(2) obtain xu where xu: "u < height canvas" "xu < width canvas" "visible canvas xu u"
    by (auto simp: in_content_rows)
  from d(4) obtain xb where xb: "b - 1 < height canvas" "xb < width canvas" "visible canvas xb (b - 1)"
    by (auto simp: in_content_rows)
  have lr: "l < r" using inside[OF yl] by simp
  have ub: "u < b" using inside[OF xu(2) xu(1) xu(3)] by simp
  have rw: "r \<le> width canvas" using yr(1) d(5) by simp
  have bh: "b \<le> height canvas" using xb(1) d(6) by simp
  define out where "out = Image (r - l) (b - u)
      (\<lambda>x y. if l + x < width canvas \<and> u + y < height canvas
             then getpixel canvas (l + x) (u + y) else transparent)"
  have c: "crop canvas (l, u, r, b) = Inr out"
    using lr ub by (simp add: crop_def out_def)
  have wo: "width out = r - l" and ho: "height out = b - u"
    by (simp_all add: out_def)
  have px: "getpixel out x y = getpixel canvas (l + x) (u + y)"
    if "x < width out" "y < height out" for x y
  proof -
    from that have "l + x < width canvas" "u + y < height canvas"
      using rw bh by (simp_all add: out_def)
    then show ?thesis by (simp add: out_def)
  qed
  have vis: "visible out x y \<longleftrightarrow> visible canvas (l + x) (u + y)"
    if "x < width out" "y < height out" for x y
    using px[OF that] by (simp add: visible_def)
  have c0: "\<exists>y < height out. visible out 0 y"
  proof -
    have "yl - u < height out" "u + (yl - u) = yl" using inside[OF yl] ho by linarith+
    moreover have "0 < width out" using lr wo by simp
    ultimately show ?thesis using vis[of 0 "yl - u"] yl(3) by auto
  qed
  have c1: "\<exists>y < height out. visible out (width out - 1) y"
  proof -
    have "yr - u < height out" "u + (yr - u) = yr" using inside[OF yr] ho by linarith+
    moreover have "width out - 1 < width out" "l + (width out - 1) = r - 1" using lr wo by linarith+
    ultimately show ?thesis using vis[of "width out - 1" "yr - u"] yr(3) by auto
  qed
  have r0: "\<exists>x < width out. visible out x 0"
  proof -
    have "xu - l < width out" "l + (xu - l) = xu" using inside[OF xu(2) xu(1) xu(3)] wo by linarith+
    moreover have "0 < height out" using ub ho by simp
    ultimately show ?thesis using vis[of "xu - l" 0] xu(3) by auto
  qed
  have r1: "\<exists>x < width out. visible out x (height out - 1)"
  proof -
    have "xb - l < width out" "l + (xb - l) = xb" using inside[OF xb(2) xb(1) xb(3)] wo by linarith+
    moreover have "height out - 1 < height out" "u + (height out - 1) = b - 1" using ub ho by linarith+
    ultimately show ?thesis using vis[of "xb - l" "height out - 1"] xb(3) by auto
  qed
  have full: "getbbox out = Some (0, 0, width out, height out)"
    using lr ub wo ho c0 c1 r0 r1 by (intro getbbox_full) simp_all
  from c wo ho lr rw ub bh px full r0 r1 c0 c1 show ?thesis by blast
qed

lemma and_then_Inr: "and_then (Inr x) f = f x"
  by (simp add: and_then_def)

lemma and_then_Inl: "and_then (Inl e) f = Inl e"
  by (simp add: and_then_def)

text \<open>
  C7. The canvas that \<open>make_iso_cube\<close> has composed is returned unchanged when it has no
  pixel of non-zero alpha. Otherwise the result is the canvas cropped to the bounding box
  of those pixels: its pixels are the canvas's inside the box, its own bounding box is
  the whole image, and its first and last row and its first and last column each hold a
  pixel that is not fully transparent.
\<close>

theorem make_iso_cube_cropped:
  assumes canvas: "iso_canvas P top_img left_img right_img edge = Inr canvas"
  shows "(\<not> has_content canvas \<longrightarrow> make_iso_cube P top_img left_img right_img edge = Inr canvas) \<and>
         (has_content canvas \<longrightarrow>
            (\<exists>out l u r b. make_iso_cube P top_img left_img right_img edge = Inr out \<and>
               getbbox canvas = Some (l, u, r, b) \<and>
               width out = r - l \<and> height out = b - u \<and>
               (\<forall>x < width out. \<forall>y < height out. getpixel out x y = getpixel canvas (l + x) (u + y)) \<and>
               getbbox out = Some (0, 0, width out, height out) \<and>
               (\<exists>x < width out. visible out x 0) \<and>
               (\<exists>x < width out. visible out x (height out - 1)) \<and>
               (\<exists>y < height out. visible out 0 y) \<and>
               (\<exists>y < height out. visible out (width out - 1) y)))"
proof (intro conjI impI)
  assume "\<not> has_content canvas"
  then have "getbbox canvas = None" by (simp add: getbbox_None)
  then show "make_iso_cube P top_img left_img right_img edge = Inr canvas"
    by (simp add: make_iso_cube_def canvas and_then_Inr)
next
  assume "has_content canvas"
  then obtain l u r b where box: "getbbox canvas = Some (l, u, r, b)"
    using getbbox_None[of canvas] by (cases "getbbox canvas") auto
  have m: "make_iso_cube P top_img left_img right_img edge = crop canvas (l, u, r, b)"
    by (simp add: make_iso_cube_def canvas and_then_Inr box)
  from crop_getbbox[OF box] m box
  show "\<exists>out l u r b. make_iso_cube P top_img left_img right_img edge = Inr out \<and>
               getbbox canvas = Some (l, u, r, b) \<and>
               width out = r - l \<and> height out = b - u \<and>
               (\<forall>x < width out. \<forall>y < height out. getpixel out x y = getpixel canvas (l + x) (u + y)) \<and>
               getbbox out = Some (0, 0, width out, height out) \<and>
               (\<exists>x < width out. visible out x 0) \<and>
               (\<exists>x < width out. visible out x (height out - 1)) \<and>
               (\<exists>y < height out. visible out 0 y) \<and>
               (\<exists>y < height out. visible out (width out - 1) y)"
    by (metis (no_types, lifting))
qed

text \<open>
  An executable instance of the operations, to evaluate the model on concrete images:
  nearest-neighbour resizing on integer coordinates, no rotation, no shear and no
  shading, and pasting and compositing that let the upper pixel win wherever its alpha is
  not zero. The theorems hold for every instance.
\<close>

definition simple_pil :: pil where
  "simple_pil =
     \<lparr>img_resize = (\<lambda>img (w, h).
         if w < 1 \<or> h < 1 then Inl ValueError
         else Inr (Image (nat w) (nat h)
                     (\<lambda>x y. getpixel img (x * width img div nat w) (y * height img div nat h)))),
      img_rotate = (\<lambda>img angle. Inr img),
      img_transform = (\<lambda>img (w, h) data. Inr (Image w h (getpixel img))),
      brightness_enhance = (\<lambda>img factor. Inr img),
      img_paste = (\<lambda>dest src (ox, oy).
         Inr (Image (width dest) (height dest)
                (\<lambda>x y. if ox \<le> int x \<and> int x < ox + int (width src) \<and>
                           oy \<le> int y \<and> int y < oy + int (height src) \<and>
                           alpha (getpixel src (nat (int x - ox)) (nat (int y - oy))) \<noteq> 0
                        then getpixel src (nat (int x - ox)) (nat (int y - oy))
                        else getpixel dest x y))),
      img_alpha_composite = (\<lambda>dest src.
         Inr (Image (width dest) (height dest)
                (\<lambda>x y. if alpha (getpixel src x y) \<noteq> 0 then getpixel src x y
                        else getpixel dest x y)))\<rparr>"

definition white1 :: image where
  "white1 = Image 1 1 (\<lambda>x y. RGBA 255 255 255 255)"

definition clear1 :: image where
  "clear1 = Image 1 1 (\<lambda>x y. transparent)"

lemmas eval_defs = iso_canvas_def simple_pil_def nearest_resize_def brighten_def alpha_composite_def
  and_then_def new_rgba_def Let_def transparent_def visible_def

lemma iso_canvas_white1: "\<exists>c. iso_canvas simple_pil white1 white1 white1 2 = Inr c \<and> width c = 8 \<and> height c = 2 \<and> visible c 2 0"
  by (simp add: eval_defs white1_def)

lemma iso_canvas_clear1: "\<exists>c. iso_canvas simple_pil clear1 clear1 clear1 2 = Inr c \<and> \<not> has_content c"
  by (simp add: eval_defs clear1_def has_content_def)

theorem make_iso_cube_cropped_witness:
  "(\<exists>out. make_iso_cube simple_pil white1 white1 white1 2 = Inr out \<and>
          getbbox out = Some (0, 0, width out, height out)) \<and>
   make_iso_cube simple_pil clear1 clear1 clear1 2 = iso_canvas simple_pil clear1 clear1 clear1 2"
proof -
  from iso_canvas_white1 obtain c where c: "iso_canvas simple_pil white1 white1 white1 2 = Inr c"
    and v: "width c = 8" "height c = 2" "visible c 2 0" by blast
  have "2 < width c \<and> 0 < height c \<and> visible c 2 0" using v by simp
  then have "has_content c" unfolding has_content_def by blast
  with make_iso_cube_cropped[OF c]
  have a: "\<exists>out. make_iso_cube simple_pil white1 white1 white1 2 = Inr out \<and>
          getbbox out = Some (0, 0, width out, height out)" by blast
  from iso_canvas_clear1 obtain d where d: "iso_canvas simple_pil clear1 clear1 clear1 2 = Inr d"
    and n: "\<not> has_content d" by blast
  from make_iso_cube_cropped[OF d] n d
  have "make_iso_cube simple_pil clear1 clear1 clear1 2 = iso_canvas simple_pil clear1 clear1 clear1 2"
    by simp
  with a show ?thesis ..
qed

section \<open>Errors in the job runner\<close>

text \<open>
  Two mods with one texture each, and an output root in which the name of the first mod
  is taken by a regular file.
\<close>

definition fs_blocked :: fs where
  "fs_blocked = [([''blocks''], Dir),
            ([''blocks'', ''a''], Dir),
            ([''blocks'', ''a'', ''stone.png''], File (Png white1)),
            ([''blocks'', ''b''], Dir),
            ([''blocks'', ''b'', ''dirt.png''], File (Png white1)),
            ([''out''], Dir),
            ([''out'', ''a''], File Undecodable)]"

lemma blocked_mkdir_out: "mkdir_parents fs_blocked [''out''] = Inr fs_blocked"
  by (simp add: mkdir_parents.simps fs_blocked_def lookup_def is_dir_def path_exists_def os_mkdir_def)

lemma blocked_mkdir_out_a: "mkdir_parents fs_blocked [''out'', ''a''] = Inl FileExistsError"
  by (simp add: mkdir_parents.simps fs_blocked_def lookup_def is_dir_def path_exists_def os_mkdir_def)

lemma blocked_jobs:
  "collect_jobs fs_blocked [''blocks''] =
     Inr [(''a'', ''stone'', [(''stone'', [''blocks'', ''a'', ''stone.png''])]),
          (''b'', ''dirt'', [(''dirt'', [''blocks'', ''b'', ''dirt.png''])])]"
  by code_simp

lemma make_iso_cube_returns:
  assumes "iso_canvas P top_img left_img right_img edge = Inr canvas"
  shows "\<exists>out. make_iso_cube P top_img left_img right_img edge = Inr out"
proof (cases "getbbox canvas")
  case None
  then show ?thesis by (simp add: make_iso_cube_def assms and_then_Inr)
next
  case (Some box)
  obtain l u r b where "box = (l, u, r, b)" by (cases box) auto
  with Some crop_getbbox[of canvas l u r b] show ?thesis
    by (auto simp: make_iso_cube_def assms and_then_Inr)
qed

lemma white1_cube: "\<exists>cube. make_iso_cube simple_pil white1 white1 white1 2 = Inr cube"
  using iso_canvas_white1 make_iso_cube_returns by blast

lemma single_texture_faces:
  assumes "\<forall>keys \<in> set HEURISTIC_KEYS. pick_by_keys [(st, p)] keys = None"
  shows "find_faces [(st, p)] =
     Inr \<lparr>top_face = Some p, bottom_face = Some p, left_face = Some p, right_face = Some p\<rparr>"
  using keyword_faces_none[OF assms]
  by (simp add: find_faces_def fill_faces_def py_or_def Let_def)

lemma no_keyword_stone: "\<forall>keys \<in> set HEURISTIC_KEYS. pick_by_keys [(''stone'', p)] keys = None"
  by (simp add: HEURISTIC_KEYS_def TOP_KEYS_def BOTTOM_KEYS_def SIDE_KEYS_def
      re_search_key_def key_here_def is_delim_def at_dollar_def)


lemma load_faces_single:
  assumes "lookup fs p = Some (File (Png img))"
  shows "load_faces fs \<lparr>top_face = Some p, bottom_face = Some p, left_face = Some p, right_face = Some p\<rparr>
         = Inr (img, img, img)"
  using assms by (simp add: load_faces_def load_png_def and_then_def)

lemma run_jobs_mkdir_raises:
  assumes "find_faces texmap = Inr f" and "load_faces fs f = Inr (top_img, left_img, right_img)"
    and "make_iso_cube P top_img left_img right_img edge = Inr cube"
    and "mkdir_parents fs (join out_root modid) = Inl e"
  shows "run_jobs P edge out_root n_jobs ((modid, base, texmap) # jobs) (fs, printed, done) =
         (Raised e, fs, printed)"
  using assms by simp

lemma main_blocked:
  "main simple_pil [''blocks''] [''out''] 2 fs_blocked = (Raised FileExistsError, fs_blocked, [])"
proof -
  obtain cube where cube: "make_iso_cube simple_pil white1 white1 white1 2 = Inr cube"
    using white1_cube by blast
  have l: "lookup fs_blocked [''blocks'', ''a'', ''stone.png''] = Some (File (Png white1))"
    by (simp add: fs_blocked_def lookup_def)
  have r: "run_jobs simple_pil 2 [''out''] n
        [(''a'', ''stone'', [(''stone'', [''blocks'', ''a'', ''stone.png''])]),
         (''b'', ''dirt'', [(''dirt'', [''blocks'', ''b'', ''dirt.png''])])] (fs_blocked, [], 0)
      = (Raised FileExistsError, fs_blocked, [])" for n
    by (rule run_jobs_mkdir_raises[OF single_texture_faces[OF no_keyword_stone]
          load_faces_single[OF l] cube])
       (simp add: join_def blocked_mkdir_out_a)
  have e: "path_exists fs_blocked [''blocks'']"
    by (simp add: fs_blocked_def path_exists_def lookup_def)
  show ?thesis
    by (simp add: main_def blocked_mkdir_out e blocked_jobs r del: run_jobs.simps)
qed

text \<open>
  C5 as stated fails: the root exists, the first job cannot create its output directory,
  the exception leaves \<open>main\<close> without a warning, and the second job is never run.
\<close>

theorem main_aborts_counterexample:
  "path_exists fs_blocked [''blocks''] \<and>
   main simple_pil [''blocks''] [''out''] 2 fs_blocked = (Raised FileExistsError, fs_blocked, []) \<and>
   \<not> path_exists fs_blocked [''out'', ''b'', ''dirt.png'']"
  by (simp add: main_blocked) (simp add: fs_blocked_def path_exists_def lookup_def)

text \<open>One mod whose only texture does not decode.\<close>

definition fs_undecodable :: fs where
  "fs_undecodable = [([''blocks''], Dir),
            ([''blocks'', ''a''], Dir),
            ([''blocks'', ''a'', ''lever.png''], File Undecodable),
            ([''out''], Dir)]"

lemma no_keyword_lever: "\<forall>keys \<in> set HEURISTIC_KEYS. pick_by_keys [(''lever'', p)] keys = None"
  by (simp add: HEURISTIC_KEYS_def TOP_KEYS_def BOTTOM_KEYS_def SIDE_KEYS_def
      re_search_key_def key_here_def is_delim_def at_dollar_def)

text \<open>
  An output root below the regular file \<open>out/a\<close> cannot be created.
\<close>

lemma blocked_mkdir_below_file:
  "mkdir_parents fs_blocked [''out'', ''a'', ''x''] = Inl NotADirectoryError"
  by (simp add: mkdir_parents.simps fs_blocked_def lookup_def is_dir_def path_exists_def os_mkdir_def
      prefixes_snoc[of "[x, y]" for x y, simplified])

text \<open>
  C5 (amended). A failure of the initial creation of the output root leaves \<open>main\<close> with
  the exception, before anything is printed. Otherwise, when the root of the blocks
  exists and there are jobs, \<open>main\<close> is the loop over the jobs, and in one turn of the
  loop: an error raised while the three face images of the job are loaded is caught, a
  warning is printed, the job is counted as done, nothing is written, and the loop goes
  on with the remaining jobs; an error raised later in the job (by \<open>make_iso_cube\<close>, by
  the creation of the output directory or by \<open>save\<close>) is not caught, it leaves \<open>main\<close>,
  and the remaining jobs are not run.
\<close>

theorem main_errors:
  "(\<forall>e. mkdir_parents fs_init out_root = Inl e \<longrightarrow>
      main P blocks_root out_root edge fs_init = (Raised e, fs_init, [])) \<and>
   (\<forall>fs jobs. mkdir_parents fs_init out_root = Inr fs \<and> path_exists fs blocks_root \<and>
      collect_jobs fs blocks_root = Inr jobs \<and> jobs \<noteq> [] \<longrightarrow>
      main P blocks_root out_root edge fs_init =
      run_jobs P edge out_root (length jobs) jobs (fs, [], 0)) \<and>
   (\<forall>f e. find_faces texmap = Inr f \<and> load_faces fs f = Inl e \<longrightarrow>
      run_jobs P edge out_root n_jobs ((modid, base, texmap) # jobs) (fs, printed, done) =
      run_jobs P edge out_root n_jobs jobs (fs, printed @ [Warning modid base e], done + 1)) \<and>
   (\<forall>f top_img left_img right_img e.
      find_faces texmap = Inr f \<and> load_faces fs f = Inr (top_img, left_img, right_img) \<and>
      make_iso_cube P top_img left_img right_img edge = Inl e \<longrightarrow>
      run_jobs P edge out_root n_jobs ((modid, base, texmap) # jobs) (fs, printed, done) =
      (Raised e, fs, printed)) \<and>
   (\<forall>f top_img left_img right_img cube e.
      find_faces texmap = Inr f \<and> load_faces fs f = Inr (top_img, left_img, right_img) \<and>
      make_iso_cube P top_img left_img right_img edge = Inr cube \<and>
      mkdir_parents fs (join out_root modid) = Inl e \<longrightarrow>
      run_jobs P edge out_root n_jobs ((modid, base, texmap) # jobs) (fs, printed, done) =
      (Raised e, fs, printed)) \<and>
   (\<forall>f top_img left_img right_img cube fs1 e.
      find_faces texmap = Inr f \<and> load_faces fs f = Inr (top_img, left_img, right_img) \<and>
      make_iso_cube P top_img left_img right_img edge = Inr cube \<and>
      mkdir_parents fs (join out_root modid) = Inr fs1 \<and>
      save fs1 (join (join out_root modid) (base @ ''.png'')) cube = Inl e \<longrightarrow>
      run_jobs P edge out_root n_jobs ((modid, base, texmap) # jobs) (fs, printed, done) =
      (Raised e, fs1, printed))"
proof (intro conjI)
  show "\<forall>e. mkdir_parents fs_init out_root = Inl e \<longrightarrow>
      main P blocks_root out_root edge fs_init = (Raised e, fs_init, [])"
    by (simp add: main_def)
  show "\<forall>fs jobs. mkdir_parents fs_init out_root = Inr fs \<and> path_exists fs blocks_root \<and>
      collect_jobs fs blocks_root = Inr jobs \<and> jobs \<noteq> [] \<longrightarrow>
      main P blocks_root out_root edge fs_init =
      run_jobs P edge out_root (length jobs) jobs (fs, [], 0)"
    by (simp add: main_def del: run_jobs.simps)
qed simp_all

theorem main_errors_witness:
  "main simple_pil [''blocks''] [''out'', ''a'', ''x''] 2 fs_blocked =
     (Raised NotADirectoryError, fs_blocked, []) \<and>
   main simple_pil [''blocks''] [''out''] 2 fs_blocked =
     run_jobs simple_pil 2 [''out''] 2
       [(''a'', ''stone'', [(''stone'', [''blocks'', ''a'', ''stone.png''])]),
        (''b'', ''dirt'', [(''dirt'', [''blocks'', ''b'', ''dirt.png''])])] (fs_blocked, [], 0) \<and>
   run_jobs simple_pil 2 [''out''] 1
     [(''a'', ''lever'', [(''lever'', [''blocks'', ''a'', ''lever.png''])])] (fs_undecodable, [], 0) =
   (Returned, fs_undecodable,
    [Warning ''a'' ''lever'' UnidentifiedImageError, Summary 1 1, OutputAt [''out'']]) \<and>
   run_jobs simple_pil 2 [''out''] 2
     [(''a'', ''stone'', [(''stone'', [''blocks'', ''a'', ''stone.png''])]),
      (''b'', ''dirt'', [(''dirt'', [''blocks'', ''b'', ''dirt.png''])])] (fs_blocked, [], 0) =
   (Raised FileExistsError, fs_blocked, [])"
proof -
  let ?p = "[''blocks'', ''a'', ''lever.png'']"
  let ?f = "\<lparr>top_face = Some ?p, bottom_face = Some ?p, left_face = Some ?p, right_face = Some ?p\<rparr>"
  let ?q = "[''blocks'', ''a'', ''stone.png'']"
  let ?g = "\<lparr>top_face = Some ?q, bottom_face = Some ?q, left_face = Some ?q, right_face = Some ?q\<rparr>"
  let ?js = "[(''a'', ''stone'', [(''stone'', ?q)]),
              (''b'', ''dirt'', [(''dirt'', [''blocks'', ''b'', ''dirt.png''])])]"
  have r: "main simple_pil [''blocks''] [''out'', ''a'', ''x''] 2 fs_blocked =
        (Raised NotADirectoryError, fs_blocked, [])"
    using main_errors[THEN conjunct1, of fs_blocked "[''out'', ''a'', ''x'']" simple_pil "[''blocks'']" 2]
      blocked_mkdir_below_file by blast
  have e: "path_exists fs_blocked [''blocks'']"
    by (simp add: fs_blocked_def path_exists_def lookup_def)
  have j: "main simple_pil [''blocks''] [''out''] 2 fs_blocked =
        run_jobs simple_pil 2 [''out''] (length ?js) ?js (fs_blocked, [], 0)"
    using main_errors[THEN conjunct2, THEN conjunct1, of fs_blocked "[''out'']" "[''blocks'']" simple_pil 2]
      blocked_mkdir_out e blocked_jobs by blast
  have len: "length ?js = 2" by simp
  note j = j[unfolded len]
  have f: "find_faces [(''lever'', ?p)] = Inr ?f"
    by (rule single_texture_faces[OF no_keyword_lever])
  have l: "load_faces fs_undecodable ?f = Inl UnidentifiedImageError"
    by (simp add: load_faces_def load_png_def and_then_def fs_undecodable_def lookup_def)
  have a: "run_jobs simple_pil 2 [''out''] 1 [(''a'', ''lever'', [(''lever'', ?p)])] (fs_undecodable, [], 0) =
        run_jobs simple_pil 2 [''out''] 1 [] (fs_undecodable, [] @ [Warning ''a'' ''lever'' UnidentifiedImageError], 0 + 1)"
    using main_errors[THEN conjunct2, THEN conjunct2, THEN conjunct1,
        of "[(''lever'', ?p)]" fs_undecodable simple_pil 2 "[''out'']" 1 "''a''" "''lever''" "[]" "[]" 0]
      f l by blast
  then have a: "run_jobs simple_pil 2 [''out''] 1 [(''a'', ''lever'', [(''lever'', ?p)])] (fs_undecodable, [], 0) =
        (Returned, fs_undecodable,
         [Warning ''a'' ''lever'' UnidentifiedImageError, Summary 1 1, OutputAt [''out'']])"
    by simp
  obtain cube where cube: "make_iso_cube simple_pil white1 white1 white1 2 = Inr cube"
    using white1_cube by blast
  have g: "find_faces [(''stone'', ?q)] = Inr ?g"
    by (rule single_texture_faces[OF no_keyword_stone])
  have lq: "lookup fs_blocked ?q = Some (File (Png white1))"
    by (simp add: fs_blocked_def lookup_def)
  have m: "mkdir_parents fs_blocked (join [''out''] ''a'') = Inl FileExistsError"
    by (simp add: join_def blocked_mkdir_out_a)
  have b: "run_jobs simple_pil 2 [''out''] 2 ?js (fs_blocked, [], 0) =
        (Raised FileExistsError, fs_blocked, [])"
    using main_errors[THEN conjunct2, THEN conjunct2, THEN conjunct2, THEN conjunct2, THEN conjunct1,
        of "[(''stone'', ?q)]" fs_blocked simple_pil 2 "[''out'']" "''a''" 2 "''stone''"
        "[(''b'', ''dirt'', [(''dirt'', [''blocks'', ''b'', ''dirt.png''])])]" "[]" 0]
      g load_faces_single[OF lq] cube m by blast
  from r j a b show ?thesis by (simp only: simp_thms)
qed

section \<open>The missing root\<close>

lemma lookup_append:
  "lookup (fs @ xs) q = (case lookup fs q of None \<Rightarrow> map_of xs q | Some v \<Rightarrow> Some v)"
  by (auto simp: lookup_def map_add_def split: option.splits)

lemma path_exists_append: "path_exists fs q \<Longrightarrow> path_exists (fs @ xs) q"
  by (auto simp: path_exists_def lookup_append split: option.splits)

lemma lookup_append_existing: "path_exists fs q \<Longrightarrow> lookup (fs @ xs) q = lookup fs q"
  by (auto simp: path_exists_def lookup_append split: option.splits)

lemma is_dir_append: "is_dir fs q \<Longrightarrow> is_dir (fs @ xs) q"
  by (auto simp: is_dir_def lookup_append split: option.splits node.splits)

lemma is_dir_exists: "is_dir fs q \<Longrightarrow> path_exists fs q"
  by (auto simp: is_dir_def path_exists_def split: option.splits node.splits)

lemma path_exists_root: "path_exists fs []"
  by (simp add: path_exists_def lookup_def)

lemma os_mkdir_Inr:
  assumes "os_mkdir fs p = Inr fs'"
  shows "fs' = fs @ [(p, Dir)]" "\<not> path_exists fs p" "p \<noteq> []"
    "\<forall>q \<in> set (butlast (prefixes p)). is_dir fs q"
proof -
  from assms have f: "find (\<lambda>q. \<not> is_dir fs q) (butlast (prefixes p)) = None"
    and r: "\<not> path_exists fs p" "fs' = fs @ [(p, Dir)]"
    by (auto simp: os_mkdir_def split: option.splits if_splits)
  show "fs' = fs @ [(p, Dir)]" "\<not> path_exists fs p" using r by simp_all
  show "p \<noteq> []" using r path_exists_root by auto
  show "\<forall>q \<in> set (butlast (prefixes p)). is_dir fs q"
    using f by (auto simp: find_None_iff)
qed

lemma os_mkdir_is_dir:
  assumes "os_mkdir fs p = Inr fs'"
  shows "is_dir fs' p"
  using os_mkdir_Inr(1,2)[OF assms]
  by (auto simp: is_dir_def path_exists_def lookup_append split: option.splits)

lemma mkdir_parents_cases:
  assumes "mkdir_parents fs p = r"
  obtains
    (made) fs' where "os_mkdir fs p = Inr fs'" "r = Inr fs'"
  | (other) e where "os_mkdir fs p = Inl e" "e \<noteq> FileNotFoundError"
      "r = (if is_dir fs p then Inr fs else Inl e)"
  | (root) "os_mkdir fs p = Inl FileNotFoundError" "butlast p = p" "r = Inl FileNotFoundError"
  | (parent_fails) e where "os_mkdir fs p = Inl FileNotFoundError" "butlast p \<noteq> p"
      "mkdir_parents fs (butlast p) = Inl e" "r = Inl e"
  | (parent_made) fs1 where "os_mkdir fs p = Inl FileNotFoundError" "butlast p \<noteq> p"
      "mkdir_parents fs (butlast p) = Inr fs1" "r = mkdir_exist_ok fs1 p"
proof -
  have "r = (case os_mkdir fs p of
        Inr fs' \<Rightarrow> Inr fs'
      | Inl e \<Rightarrow>
          if e = FileNotFoundError
          then (if butlast p = p then Inl e
                else (case mkdir_parents fs (butlast p) of
                        Inl e' \<Rightarrow> Inl e'
                      | Inr fs' \<Rightarrow> mkdir_exist_ok fs' p))
          else if is_dir fs p then Inr fs else Inl e)"
    using assms mkdir_parents.simps[of fs p] by simp
  then show thesis
    using that by (auto split: sum.splits if_splits)
qed

lemma mkdir_exist_ok_Inr:
  assumes "mkdir_exist_ok fs p = Inr fs'"
  shows "os_mkdir fs p = Inr fs' \<or> (fs' = fs \<and> is_dir fs p)"
  using assms by (auto simp: mkdir_exist_ok_def split: sum.splits if_splits)

lemma mkdir_parents_created:
  "mkdir_parents fs p = Inr fs' \<Longrightarrow>
     \<exists>qs. fs' = fs @ map (\<lambda>q. (q, Dir)) qs \<and> (\<forall>q \<in> set qs. prefix q p \<and> \<not> path_exists fs q)"
proof (induction fs p arbitrary: fs' rule: mkdir_parents.induct)
  case (1 fs p)
  from "1.prems" show ?case
  proof (cases rule: mkdir_parents_cases)
    case (made fs1)
    with os_mkdir_Inr(1,2)[OF made(1)] have "fs' = fs @ map (\<lambda>q. (q, Dir)) [p]" "\<not> path_exists fs p"
      by simp_all
    then show ?thesis by (intro exI[of _ "[p]"]) simp
  next
    case (other e)
    then have "fs' = fs" by (simp split: if_splits)
    then show ?thesis by (intro exI[of _ "[]"]) simp
  next
    case root
    then show ?thesis by simp
  next
    case (parent_fails e)
    then show ?thesis by simp
  next
    case (parent_made fs1)
    from "1.IH"[OF parent_made(1) refl parent_made(2,3)] obtain qs where
      qs: "fs1 = fs @ map (\<lambda>q. (q, Dir)) qs" "\<forall>q \<in> set qs. prefix q (butlast p) \<and> \<not> path_exists fs q"
      by blast
    have pre: "\<forall>q \<in> set qs. prefix q p \<and> \<not> path_exists fs q"
      using qs(2) by (meson prefix_order.trans prefixeq_butlast)
    from parent_made(4) have fin: "mkdir_exist_ok fs1 p = Inr fs'" by simp
    from mkdir_exist_ok_Inr[OF fin] show ?thesis
    proof
      assume m: "os_mkdir fs1 p = Inr fs'"
      from os_mkdir_Inr(1,2)[OF m] have "fs' = fs1 @ [(p, Dir)]" "\<not> path_exists fs1 p" by simp_all
      then have "fs' = fs @ map (\<lambda>q. (q, Dir)) (qs @ [p])" "\<not> path_exists fs p"
        using qs(1) path_exists_append by auto
      with pre show ?thesis by (intro exI[of _ "qs @ [p]"]) auto
    next
      assume "fs' = fs1 \<and> is_dir fs1 p"
      with qs(1) pre show ?thesis by blast
    qed
  qed
qed

lemma mkdir_parents_is_dir: "mkdir_parents fs p = Inr fs' \<Longrightarrow> is_dir fs' p"
proof (induction fs p arbitrary: fs' rule: mkdir_parents.induct)
  case (1 fs p)
  from "1.prems" show ?case
  proof (cases rule: mkdir_parents_cases)
    case (made fs1)
    then show ?thesis using os_mkdir_is_dir by simp
  next
    case (other e)
    then show ?thesis by (simp split: if_splits)
  next
    case root
    then show ?thesis by simp
  next
    case (parent_fails e)
    then show ?thesis by simp
  next
    case (parent_made fs1)
    then have "mkdir_exist_ok fs1 p = Inr fs'" by simp
    from mkdir_exist_ok_Inr[OF this] show ?thesis using os_mkdir_is_dir by blast
  qed
qed

lemma exists_in_keys: "path_exists fs p \<Longrightarrow> p \<noteq> [] \<Longrightarrow> p \<in> fst ` set fs"
  by (auto simp: path_exists_def lookup_def split: option.splits dest: map_of_SomeD intro: image_eqI[where x="(p, _)"])

lemma wf_fs_ancestors:
  assumes "wf_fs fs"
  shows "path_exists fs p \<Longrightarrow> prefix q p \<Longrightarrow> q \<noteq> p \<Longrightarrow> is_dir fs q"
proof (induction p rule: rev_induct)
  case Nil
  then show ?case by simp
next
  case (snoc y ys)
  have "ys @ [y] \<in> fst ` set fs" using snoc.prems(1) by (intro exists_in_keys) simp_all
  then have d: "is_dir fs ys" using assms by (fastforce simp: wf_fs_def)
  from snoc.prems(2,3) have "prefix q ys" by auto
  show ?case
  proof (cases "q = ys")
    case True with d show ?thesis by simp
  next
    case False
    with snoc.IH[OF is_dir_exists[OF d] \<open>prefix q ys\<close>] show ?thesis by simp
  qed
qed

lemma wf_fs_snoc:
  assumes "wf_fs fs" and "\<not> path_exists fs p" and "is_dir fs (butlast p)"
  shows "wf_fs (fs @ [(p, Dir)])"
proof -
  have ne: "p \<noteq> []" using assms(2) path_exists_root by auto
  have nk: "p \<notin> fst ` set fs"
    using assms(2) ne by (auto simp: path_exists_def lookup_def map_of_eq_None_iff split: option.splits)
  show ?thesis
    using assms(1,3) ne nk by (auto simp: wf_fs_def intro: is_dir_append)
qed

lemma os_mkdir_wf:
  assumes "os_mkdir fs p = Inr fs'" and "wf_fs fs"
  shows "wf_fs fs'"
proof -
  note m = os_mkdir_Inr[OF assms(1)]
  have "butlast p \<in> set (butlast (prefixes p))"
    using m(3) by (cases p rule: rev_cases) simp_all
  with m(4) have "is_dir fs (butlast p)" by blast
  with m(1,2) assms(2) show ?thesis using wf_fs_snoc by simp
qed

lemma mkdir_parents_wf: "mkdir_parents fs p = Inr fs' \<Longrightarrow> wf_fs fs \<Longrightarrow> wf_fs fs'"
proof (induction fs p arbitrary: fs' rule: mkdir_parents.induct)
  case (1 fs p)
  from "1.prems"(1) show ?case
  proof (cases rule: mkdir_parents_cases)
    case (made fs1)
    then show ?thesis using os_mkdir_wf "1.prems"(2) by simp
  next
    case (other e)
    then show ?thesis using "1.prems"(2) by (simp split: if_splits)
  next
    case root
    then show ?thesis by simp
  next
    case (parent_fails e)
    then show ?thesis by simp
  next
    case (parent_made fs1)
    have w1: "wf_fs fs1"
      using "1.IH"[OF parent_made(1) refl parent_made(2,3)] "1.prems"(2) by simp
    from parent_made(4) have "mkdir_exist_ok fs1 p = Inr fs'" by simp
    from mkdir_exist_ok_Inr[OF this] show ?thesis using os_mkdir_wf w1 by blast
  qed
qed

text \<open>
  C10 (amended). Let the file system be well formed, let \<open>blocks_root\<close> not exist and be
  neither the output root nor one of its ancestors, and let the creation of the output
  root succeed. Then \<open>main\<close> reports the missing root and returns, and what it leaves is
  the file system after that creation: the output root and all its ancestors are
  directories, every path that existed is unchanged, every new path is the output root
  or an ancestor of it, and an output root that did not exist before is empty.
\<close>

theorem main_missing_root:
  assumes wf: "wf_fs fs"
    and missing: "\<not> path_exists fs blocks_root"
    and apart: "\<not> prefix blocks_root out_root"
    and made: "mkdir_parents fs out_root = Inr fs1"
  shows "main P blocks_root out_root edge fs = (Returned, fs1, [MissingRoot blocks_root]) \<and>
         (\<forall>q. prefix q out_root \<longrightarrow> is_dir fs1 q) \<and>
         (\<forall>q. path_exists fs q \<longrightarrow> lookup fs1 q = lookup fs q) \<and>
         (\<forall>q. path_exists fs1 q \<and> \<not> path_exists fs q \<longrightarrow> prefix q out_root) \<and>
         (\<not> path_exists fs out_root \<longrightarrow> (\<forall>q. strict_prefix out_root q \<longrightarrow> \<not> path_exists fs1 q))"
proof -
  from mkdir_parents_created[OF made] obtain qs where
    qs: "fs1 = fs @ map (\<lambda>q. (q, Dir)) qs" "\<forall>q \<in> set qs. prefix q out_root \<and> \<not> path_exists fs q"
    by blast
  have new: "prefix q out_root" if "path_exists fs1 q" "\<not> path_exists fs q" for q
  proof -
    from that have "map_of (map (\<lambda>q. (q, Dir)) qs) q \<noteq> None"
      by (auto simp: qs(1) path_exists_def lookup_append split: option.splits)
    then have "q \<in> set qs" by (auto simp: map_of_eq_None_iff image_iff)
    with qs(2) show ?thesis by blast
  qed
  have nb: "\<not> path_exists fs1 blocks_root"
    using new[of blocks_root] missing apart by blast
  have d: "is_dir fs1 out_root" using made by (rule mkdir_parents_is_dir)
  have w1: "wf_fs fs1" using made wf by (rule mkdir_parents_wf)
  have anc: "is_dir fs1 q" if "prefix q out_root" for q
    using wf_fs_ancestors[OF w1 is_dir_exists[OF d] that] d by (cases "q = out_root") auto
  have frame: "lookup fs1 q = lookup fs q" if "path_exists fs q" for q
    using that by (simp add: qs(1) lookup_append_existing)
  have empty: "\<not> path_exists fs1 q" if "\<not> path_exists fs out_root" "strict_prefix out_root q" for q
  proof
    assume e: "path_exists fs1 q"
    show False
    proof (cases "path_exists fs q")
      case True
      from wf_fs_ancestors[OF wf True, of out_root] that(2) have "is_dir fs out_root"
        by (auto simp: strict_prefix_def)
      with that(1) show False using is_dir_exists by blast
    next
      case False
      with new[OF e] that(2) show False by (auto simp: strict_prefix_def)
    qed
  qed
  have m: "main P blocks_root out_root edge fs = (Returned, fs1, [MissingRoot blocks_root])"
    by (simp add: main_def made nb)
  from m anc frame new empty show ?thesis by blast
qed

text \<open>
  C10 as stated fails when the output root lies below the missing \<open>blocks_root\<close>:
  creating the output root creates \<open>blocks_root\<close>, the check finds it, and the run ends
  with "nothing to render" instead of the missing-root report.
\<close>

theorem main_nested_root_counterexample:
  "\<not> path_exists [] [''blocks''] \<and>
   main simple_pil [''blocks''] [''blocks'', ''iso''] 128 [] =
     (Returned, [([''blocks''], Dir), ([''blocks'', ''iso''], Dir)], [NothingToRender])"
proof -
  have m: "mkdir_parents [] [''blocks'', ''iso''] = Inr [([''blocks''], Dir), ([''blocks'', ''iso''], Dir)]"
    by (simp add: mkdir_parents.simps lookup_def is_dir_def path_exists_def os_mkdir_def
        mkdir_exist_ok_def)
  have j: "collect_jobs [([''blocks''], Dir), ([''blocks'', ''iso''], Dir)] [''blocks''] = Inr []"
    by code_simp
  show ?thesis
    by (simp add: main_def m j) (simp add: path_exists_def lookup_def)
qed

theorem main_missing_root_witness:
  "main simple_pil [''blocks''] [''renders'', ''iso''] 128 [([''home''], Dir)] =
     (Returned, [([''home''], Dir), ([''renders''], Dir), ([''renders'', ''iso''], Dir)],
      [MissingRoot [''blocks'']])"
proof -
  let ?fs = "[([''home''], Dir)]"
  have w: "wf_fs ?fs" by (simp add: wf_fs_def is_dir_def lookup_def)
  have e: "\<not> path_exists ?fs [''blocks'']" by (simp add: path_exists_def lookup_def)
  have a: "\<not> prefix [''blocks''] [''renders'', ''iso'']" by simp
  have m: "mkdir_parents ?fs [''renders'', ''iso''] =
      Inr [([''home''], Dir), ([''renders''], Dir), ([''renders'', ''iso''], Dir)]"
    by (simp add: mkdir_parents.simps lookup_def is_dir_def path_exists_def os_mkdir_def
        mkdir_exist_ok_def)
  from main_missing_root[OF w e a m, of simple_pil 128] show ?thesis by blast
qed

section \<open>Runs on the same tree\<close>




















subsection \<open>What a run leaves behind\<close>







lemma is_dir_cong: "lookup fs' q = lookup fs q \<Longrightarrow> is_dir fs' q = is_dir fs q"
  by (simp add: is_dir_def)












lemma prefix_join: "prefix out_root (join out_root s)"
  by (simp add: join_def)





















lemma path_exists_cong: "lookup fs' q = lookup fs q \<Longrightarrow> path_exists fs' q = path_exists fs q"
  by (simp add: path_exists_def)





















end
